theory Spec2Isabelle
  imports Complex_Main "HOL-Library.Sublist"
begin

chapter \<open>The programs\<close>

section \<open>Response parser: numeric extraction\<close>

text \<open>
  The merge notebook extracts a dollar amount from the free text of a model answer with
  \<^verbatim>\<open>parse_dollar_strict(text, min_expected=2000, max_expected=20000, min_valid=2000,
  max_valid=200000)\<close>. The text is a \<open>string\<close>; only the ASCII digits count as \<open>\d\<close>.
  The function returns a NumPy 64-bit integer, one of three fixed strings, or the float
  \<open>nan\<close> from its exception handlers.
\<close>

datatype parsed = Number int | REFUSED | INVALID_UNDER_MIN | INVALID_OVER_MAX | NaN

datatype py_error =
  ValueError | OverflowError | ZeroDivisionError | AssertionError | KeyError | TypeError
  | IndexError | AttributeError

subsection \<open>The regular expression \<^verbatim>\<open>\$?\d+(?:,\d+)*\<close>\<close>

definition is_digit :: "char \<Rightarrow> bool" where
  "is_digit c = (c \<in> set ''0123456789'')"

text \<open>\<^verbatim>\<open>\d+\<close>: the longest non-empty run of digits, with the rest of the input.\<close>

definition digits1 :: "string \<Rightarrow> (string \<times> string) option" where
  "digits1 s =
     (if takeWhile is_digit s = [] then None
      else Some (takeWhile is_digit s, dropWhile is_digit s))"

text \<open>\<^verbatim>\<open>(?:,\d+)*\<close>: greedy; a comma that no digit follows is not consumed.\<close>

function groups :: "string \<Rightarrow> string \<times> string" where
  "groups [] = ([], [])"
| "groups (c # cs) =
     (if c = CHR '','' then
        (case digits1 cs of
           Some (ds, r) \<Rightarrow> (case groups r of (g, r') \<Rightarrow> (c # ds @ g, r'))
         | None \<Rightarrow> ([], c # cs))
      else ([], c # cs))"
  by pat_completeness auto

termination
proof (relation "measure length")
  show "wf (measure length)" by simp
next
  fix c :: char and cs x2 ds r
  assume "digits1 cs = Some x2" and "(ds, r) = x2"
  then have "r = dropWhile is_digit cs"
    by (auto simp: digits1_def split: if_splits)
  then have "length r \<le> length cs" by (simp add: length_dropWhile_le)
  then show "(r, c # cs) \<in> measure length" by simp
qed

text \<open>
  One match attempt at the start of \<open>s\<close>. After an optional dollar sign the digits are
  mandatory; giving the dollar sign back cannot help, since a dollar sign is no digit.
\<close>

definition match_at :: "string \<Rightarrow> (string \<times> string) option" where
  "match_at s =
     (case s of
        [] \<Rightarrow> None
      | c # cs \<Rightarrow>
          (if c = CHR ''$'' then
             (case digits1 cs of
                Some (ds, r) \<Rightarrow> (case groups r of (g, r') \<Rightarrow> Some (c # ds @ g, r'))
              | None \<Rightarrow> None)
           else
             (case digits1 s of
                Some (ds, r) \<Rightarrow> (case groups r of (g, r') \<Rightarrow> Some (ds @ g, r'))
              | None \<Rightarrow> None)))"

text \<open>\<^verbatim>\<open>re.findall\<close>: leftmost matches, scanning on after each one.\<close>

function findall :: "string \<Rightarrow> string list" where
  "findall [] = []"
| "findall (c # cs) =
     (case match_at (c # cs) of
        Some (m, r) \<Rightarrow> m # findall r
      | None \<Rightarrow> findall cs)"
  by pat_completeness auto

termination
proof (relation "measure length")
  show "wf (measure length)" by simp
next
  fix c :: char and cs :: string
  show "(cs, c # cs) \<in> measure length" by simp
next
  fix c :: char and cs x2 m r
  assume a: "match_at (c # cs) = Some x2" and b: "(m, r) = x2"
  have digits: "length r' < length s" if "digits1 s = Some (ds, r')" for s ds r'
  proof -
    from that have ne: "takeWhile is_digit s \<noteq> []" and r': "r' = dropWhile is_digit s"
      by (auto simp: digits1_def split: if_splits)
    have "length (takeWhile is_digit s) + length (dropWhile is_digit s) = length s"
      by (metis length_append takeWhile_dropWhile_id)
    with ne r' show ?thesis by (cases "takeWhile is_digit s") auto
  qed
  have grp: "length r' \<le> length s" if "groups s = (g, r')" for s g r'
    using that
  proof (induction s arbitrary: g r' rule: groups.induct)
    case 1
    then show ?case by simp
  next
    case (2 c cs)
    show ?case
    proof (cases "c = CHR '','' \<and> digits1 cs \<noteq> None")
      case False
      with "2.prems" show ?thesis by (auto split: option.splits)
    next
      case True
      then obtain ds r0 where d: "digits1 cs = Some (ds, r0)" by auto
      obtain g0 r1 where g0: "groups r0 = (g0, r1)" by (cases "groups r0")
      from True d g0 "2.prems" have "r' = r1" by simp
      moreover have "length r1 \<le> length r0" using "2.IH" True d g0 by simp
      moreover have "length r0 < length cs" using d by (rule digits)
      ultimately show ?thesis by simp
    qed
  qed
  from a b have "match_at (c # cs) = Some (m, r)" by simp
  then have "length r < length (c # cs)"
    by (auto simp: match_at_def split: if_splits option.splits prod.splits
        dest!: digits grp)
  then show "(r, c # cs) \<in> measure length" by simp
qed

subsection \<open>Conversion of a match to a 64-bit integer\<close>

text \<open>\<^verbatim>\<open>match.replace('$', '').replace(',', '')\<close>\<close>

definition strip_symbols :: "string \<Rightarrow> string" where
  "strip_symbols m = filter (\<lambda>c. c \<noteq> CHR '','') (filter (\<lambda>c. c \<noteq> CHR ''$'') m)"

definition digit_val :: "char \<Rightarrow> int" where
  "digit_val c = int (of_char c) - 48"

text \<open>Python's \<open>int\<close> of a decimal string: \<open>ValueError\<close> unless it is a non-empty digit string.\<close>

definition py_int :: "string \<Rightarrow> py_error + int" where
  "py_int s =
     (if s = [] \<or> \<not> list_all is_digit s then Inl ValueError
      else Inr (foldl (\<lambda>acc c. 10 * acc + digit_val c) 0 s))"

text \<open>\<^verbatim>\<open>np.int64(str)\<close>: a value outside the signed 64-bit range raises \<open>OverflowError\<close>.\<close>

definition np_int64 :: "string \<Rightarrow> py_error + int" where
  "np_int64 s =
     (case py_int s of
        Inl e \<Rightarrow> Inl e
      | Inr v \<Rightarrow> (if - (2 ^ 63) \<le> v \<and> v < 2 ^ 63 then Inr v else Inl OverflowError))"

text \<open>The list comprehension over the matches: the first exception ends it.\<close>

fun convert_all :: "string list \<Rightarrow> py_error + int list" where
  "convert_all [] = Inr []"
| "convert_all (m # ms) =
     (case np_int64 (strip_symbols m) of
        Inl e \<Rightarrow> Inl e
      | Inr v \<Rightarrow> (case convert_all ms of Inl e \<Rightarrow> Inl e | Inr vs \<Rightarrow> Inr (v # vs)))"

subsection \<open>Selection and validation\<close>

text \<open>Python's \<open>max\<close> of a list: \<open>ValueError\<close> on the empty list.\<close>

fun py_max :: "int list \<Rightarrow> py_error + int" where
  "py_max [] = Inl ValueError"
| "py_max (x # xs) = Inr (fold max xs x)"

text \<open>
  The branch on \<open>values_in_range\<close>. The division \<open>max_value / 2\<close> is Python's true
  division, here on the reals.
\<close>

definition select_result :: "int \<Rightarrow> int \<Rightarrow> int list \<Rightarrow> py_error + int" where
  "select_result min_expected max_expected values =
     (let values_in_range = filter (\<lambda>value. min_expected \<le> value \<and> value \<le> max_expected) values
      in if values_in_range \<noteq> [] then
           (case py_max values_in_range of
              Inl e \<Rightarrow> Inl e
            | Inr max_value \<Rightarrow>
                py_max (filter (\<lambda>value. real_of_int value \<ge> real_of_int max_value / 2)
                          values_in_range))
         else py_max values)"

definition validate :: "int \<Rightarrow> int \<Rightarrow> int \<Rightarrow> parsed" where
  "validate min_valid max_valid result =
     (if result \<ge> min_valid \<and> result \<le> max_valid then Number result
      else if result < min_valid then INVALID_UNDER_MIN
      else INVALID_OVER_MAX)"

definition extracted_values :: "string \<Rightarrow> py_error + int list" where
  "extracted_values text = convert_all (findall text)"

text \<open>Every exception inside the \<open>try\<close> block ends in one of the handlers returning \<open>nan\<close>.\<close>

definition parse_dollar_strict :: "string \<Rightarrow> int \<Rightarrow> int \<Rightarrow> int \<Rightarrow> int \<Rightarrow> parsed" where
  "parse_dollar_strict text min_expected max_expected min_valid max_valid =
     (if findall text \<noteq> [] then
        (case extracted_values text of
           Inl e \<Rightarrow> NaN
         | Inr values \<Rightarrow>
             (case select_result min_expected max_expected values of
                Inl e \<Rightarrow> NaN
              | Inr result \<Rightarrow> validate min_valid max_valid result))
      else REFUSED)"

subsection \<open>The derived columns of the merged table\<close>

text \<open>
  \<^verbatim>\<open>df_all['query_response_parsed'] = df_all['content'].apply(parse_dollar_strict)\<close>:
  the function is applied with its default bounds.
\<close>

definition query_response_parsed :: "string \<Rightarrow> parsed" where
  "query_response_parsed content = parse_dollar_strict content 2000 20000 2000 200000"

text \<open>
  \<^verbatim>\<open>pd.to_numeric(..., errors='coerce')\<close>: an integer becomes a float, and everything
  that is no number (the three strings, and \<open>nan\<close> itself) becomes \<open>nan\<close>, here \<open>None\<close>.
\<close>

fun to_numeric_coerce :: "parsed \<Rightarrow> real option" where
  "to_numeric_coerce (Number n) = Some (real_of_int n)"
| "to_numeric_coerce REFUSED = None"
| "to_numeric_coerce INVALID_UNDER_MIN = None"
| "to_numeric_coerce INVALID_OVER_MAX = None"
| "to_numeric_coerce NaN = None"

definition query_response_numeric :: "string \<Rightarrow> real option" where
  "query_response_numeric content = to_numeric_coerce (query_response_parsed content)"

definition isna :: "real option \<Rightarrow> bool" where
  "isna x = (x = None)"

text \<open>\<^verbatim>\<open>df_all['refused'] = df_all['query_response_numeric'].isna().astype(int)\<close>\<close>

definition refused :: "string \<Rightarrow> int" where
  "refused content = (if isna (query_response_numeric content) then 1 else 0)"

subsection \<open>The parser without the half-of-maximum filter\<close>

text \<open>
  The same function with the step that discards in-range values below half of the
  in-range maximum left out; it is compared with the source's function below.
\<close>

definition select_result_unfiltered :: "int \<Rightarrow> int \<Rightarrow> int list \<Rightarrow> py_error + int" where
  "select_result_unfiltered min_expected max_expected values =
     (let values_in_range = filter (\<lambda>value. min_expected \<le> value \<and> value \<le> max_expected) values
      in if values_in_range \<noteq> [] then py_max values_in_range else py_max values)"

definition parse_dollar_unfiltered :: "string \<Rightarrow> int \<Rightarrow> int \<Rightarrow> int \<Rightarrow> int \<Rightarrow> parsed" where
  "parse_dollar_unfiltered text min_expected max_expected min_valid max_valid =
     (if findall text \<noteq> [] then
        (case extracted_values text of
           Inl e \<Rightarrow> NaN
         | Inr values \<Rightarrow>
             (case select_result_unfiltered min_expected max_expected values of
                Inl e \<Rightarrow> NaN
              | Inr result \<Rightarrow> validate min_valid max_valid result))
      else REFUSED)"

section \<open>Batch driver and weight fetcher\<close>

text \<open>
  Both shell scripts loop over \<^verbatim>\<open>"$input_dir"/*.jsonl\<close>. A request file is its base
  name together with what \<^verbatim>\<open>head -n 1 "$file" | jq -r '.body.model' 2>/dev/null\<close>
  sees in its first line.
\<close>

datatype first_line =
    Unparsable          \<comment> \<open>no JSON, or \<open>.body\<close> cannot be indexed: jq prints nothing\<close>
  | Model_null          \<comment> \<open>\<open>.body.model\<close> missing or null: jq prints \<open>null\<close>\<close>
  | Model_string string \<comment> \<open>jq prints the raw string\<close>

record request_file =
  filename :: string
  first_line :: first_line

fun jq_body_model :: "first_line \<Rightarrow> string" where
  "jq_body_model Unparsable = ''''"
| "jq_body_model Model_null = ''null''"
| "jq_body_model (Model_string m) = m"

text \<open>The shell pattern \<^verbatim>\<open>*sub*\<close>, and \<^verbatim>\<open>${name%suffix}\<close>, and \<^verbatim>\<open>${name,,}\<close> on ASCII.\<close>

fun str_contains :: "string \<Rightarrow> string \<Rightarrow> bool" where
  "str_contains sub [] = (sub = [])"
| "str_contains sub (c # cs) = (prefix sub (c # cs) \<or> str_contains sub cs)"

definition remove_suffix :: "string \<Rightarrow> string \<Rightarrow> string" where
  "remove_suffix suf s = (if suffix suf s then take (length s - length suf) s else s)"

definition to_lower :: "char \<Rightarrow> char" where
  "to_lower c =
     (if c \<in> set ''ABCDEFGHIJKLMNOPQRSTUVWXYZ'' then char_of (of_char c + (32::nat)) else c)"

text \<open>The glob \<^verbatim>\<open>*.jsonl\<close> keeps the names with that ending that do not start with a dot.\<close>

definition glob_jsonl :: "request_file list \<Rightarrow> request_file list" where
  "glob_jsonl dir =
     filter (\<lambda>f. suffix ''.jsonl'' (filename f) \<and> \<not> prefix ''.'' (filename f)) dir"

definition input_dir :: string where "input_dir = ''input_data/batch_requests''"

definition output_dir :: string where "output_dir = ''input_data/batch_results''"

definition log_dir :: string where "log_dir = ''logs''"

definition dl_log_dir :: string where "dl_log_dir = ''dl_logs''"

subsection \<open>The batch driver\<close>

record config =
  tensor_parallel_size :: string
  max_model_len :: string
  dry_run :: bool
  max_num_seqs :: string
  max_num_batched_tokens :: string
  gpu_memory_utilization :: string
  replace :: bool

definition default_config :: config where
  "default_config =
     \<lparr>tensor_parallel_size = ''1'', max_model_len = ''1024'', dry_run = False,
      max_num_seqs = ''1500'', max_num_batched_tokens = ''12000'',
      gpu_memory_utilization = ''0.95'', replace = False\<rparr>"

text \<open>The inference command: the fields that vary in the command string.\<close>

record run_batch =
  cmd_input :: string
  cmd_output :: string
  cmd_model :: string
  cmd_tensor_parallel_size :: string
  cmd_max_model_len :: string
  cmd_max_num_batched_tokens :: string
  cmd_max_num_seqs :: string
  cmd_gpu_memory_utilization :: string
  cmd_tokenizer_flag :: string

datatype driver_event =
    Warn_no_model string
  | Skip_exists string
  | Dry_run run_batch
  | Invoke run_batch string
  | Completed string

text \<open>
  The files that exist, by path. The inference subprocess is a black box: a function
  from its command and the files before it to the files after it. The script itself
  creates the log file through \<^verbatim>\<open>tee\<close>.
\<close>

type_synonym fs = "string set"

definition output_file :: "string \<Rightarrow> string" where
  "output_file name = output_dir @ ''/'' @ remove_suffix ''.jsonl'' name @ ''_output.jsonl''"

definition output_file_zip :: "string \<Rightarrow> string" where
  "output_file_zip name = output_file name @ ''.zip''"

definition log_file :: "string \<Rightarrow> string" where
  "log_file name = log_dir @ ''/'' @ remove_suffix ''.jsonl'' name @ ''.log''"

definition tokenizer_flag :: "string \<Rightarrow> string" where
  "tokenizer_flag name =
     (if str_contains ''mistral'' (map to_lower name) \<or> str_contains ''ministral'' (map to_lower name)
      then ''--tokenizer_mode mistral --config_format mistral --load_format mistral''
      else '''')"

definition build_command :: "config \<Rightarrow> string \<Rightarrow> string \<Rightarrow> run_batch" where
  "build_command cfg name full_model_name =
     \<lparr>cmd_input = input_dir @ ''/'' @ name,
      cmd_output = output_file name,
      cmd_model = full_model_name,
      cmd_tensor_parallel_size = tensor_parallel_size cfg,
      cmd_max_model_len = max_model_len cfg,
      cmd_max_num_batched_tokens = max_num_batched_tokens cfg,
      cmd_max_num_seqs = max_num_seqs cfg,
      cmd_gpu_memory_utilization = gpu_memory_utilization cfg,
      cmd_tokenizer_flag = tokenizer_flag name\<rparr>"

text \<open>One pass of the loop body; every \<^verbatim>\<open>continue\<close> is a branch that returns.\<close>

definition driver_file ::
  "config \<Rightarrow> (run_batch \<Rightarrow> fs \<Rightarrow> fs) \<Rightarrow> request_file \<Rightarrow> fs \<Rightarrow> driver_event list \<times> fs" where
  "driver_file cfg runner f files =
     (if str_contains ''gpt'' (filename f) then ([], files)
      else if str_contains ''claude'' (filename f) then ([], files)
      else
        (let full_model_name = jq_body_model (first_line f) in
         if full_model_name = [] \<or> full_model_name = ''null'' then
           ([Warn_no_model (input_dir @ ''/'' @ filename f)], files)
         else if (output_file (filename f) \<in> files \<or> output_file_zip (filename f) \<in> files)
                 \<and> \<not> replace cfg then
           ([Skip_exists (filename f)], files)
         else
           (let command = build_command cfg (filename f) full_model_name in
            if dry_run cfg then ([Dry_run command], files)
            else
              ([Invoke command (log_file (filename f)), Completed (filename f)],
               insert (log_file (filename f)) (runner command files)))))"

fun driver_loop ::
  "config \<Rightarrow> (run_batch \<Rightarrow> fs \<Rightarrow> fs) \<Rightarrow> request_file list \<Rightarrow> fs \<Rightarrow> driver_event list \<times> fs" where
  "driver_loop cfg runner [] files = ([], files)"
| "driver_loop cfg runner (f # rest) files =
     (case driver_file cfg runner f files of
        (ev, files') \<Rightarrow>
          (case driver_loop cfg runner rest files' of
             (evs, files'') \<Rightarrow> (ev @ evs, files'')))"

definition driver ::
  "config \<Rightarrow> (run_batch \<Rightarrow> fs \<Rightarrow> fs) \<Rightarrow> request_file list \<Rightarrow> fs \<Rightarrow> driver_event list \<times> fs" where
  "driver cfg runner dir files = driver_loop cfg runner (glob_jsonl dir) files"

fun invocations :: "driver_event list \<Rightarrow> run_batch list" where
  "invocations [] = []"
| "invocations (Invoke c l # evs) = c # invocations evs"
| "invocations (e # evs) = invocations evs"

subsection \<open>The weight fetcher\<close>

datatype fetch_event =
    Fetch_warn_no_model string
  | Download string string
  | Download_completed string string

definition fetcher_file :: "request_file \<Rightarrow> fetch_event list" where
  "fetcher_file f =
     (if prefix ''gpt'' (filename f) then []
      else
        (let full_model_name = jq_body_model (first_line f) in
         if full_model_name = [] \<or> full_model_name = ''null'' then
           [Fetch_warn_no_model (input_dir @ ''/'' @ filename f)]
         else
           [Download full_model_name (dl_log_dir @ ''/'' @ remove_suffix ''.jsonl'' (filename f) @ ''.log''),
            Download_completed full_model_name (filename f)]))"

definition fetcher :: "request_file list \<Rightarrow> fetch_event list" where
  "fetcher dir = concat (map fetcher_file (glob_jsonl dir))"

fun downloads :: "fetch_event list \<Rightarrow> string list" where
  "downloads [] = []"
| "downloads (Download m l # evs) = m # downloads evs"
| "downloads (e # evs) = downloads evs"

section \<open>JSON values and \<^verbatim>\<open>json.dumps\<close>\<close>

text \<open>
  The request records are Python dictionaries of strings, lists and dictionaries. A
  Python string is modelled as a \<open>string\<close> whose characters are the code points below
  256; numbers do not occur in a request record and are left out.
\<close>

datatype json =
    JNull
  | JBool bool
  | JString string
  | JArray "json list"
  | JObject "(string \<times> json) list"

definition hex_digit :: "nat \<Rightarrow> char" where
  "hex_digit d = ''0123456789abcdef'' ! d"

text \<open>
  The string encoder of \<^verbatim>\<open>json.dumps\<close> with \<^verbatim>\<open>ensure_ascii=True\<close>: the quote, the
  backslash and five control characters have short escapes, the other characters
  outside the printable ASCII range are written as \<^verbatim>\<open>\uXXXX\<close>.
\<close>

definition escape_char :: "char \<Rightarrow> string" where
  "escape_char c =
     (if c = CHR 0x22 then [CHR 0x5C, CHR 0x22]
      else if c = CHR 0x5C then [CHR 0x5C, CHR 0x5C]
      else if c = CHR 0x0A then [CHR 0x5C, CHR ''n'']
      else if c = CHR 0x0D then [CHR 0x5C, CHR ''r'']
      else if c = CHR 0x09 then [CHR 0x5C, CHR ''t'']
      else if c = CHR 0x08 then [CHR 0x5C, CHR ''b'']
      else if c = CHR 0x0C then [CHR 0x5C, CHR ''f'']
      else if 32 \<le> (of_char c :: nat) \<and> (of_char c :: nat) \<le> 126 then [c]
      else [CHR 0x5C, CHR ''u'',
            hex_digit (of_char c div 4096), hex_digit (of_char c div 256 mod 16),
            hex_digit (of_char c div 16 mod 16), hex_digit (of_char c mod 16)])"

definition encode_string :: "string \<Rightarrow> string" where
  "encode_string s = [CHR 0x22] @ concat (map escape_char s) @ [CHR 0x22]"

text \<open>The default separators are \<^verbatim>\<open>', '\<close> and \<^verbatim>\<open>': '\<close>; keys keep their insertion order.\<close>

fun dumps :: "json \<Rightarrow> string"
  and dumps_items :: "json list \<Rightarrow> string"
  and dumps_members :: "(string \<times> json) list \<Rightarrow> string" where
  "dumps JNull = ''null''"
| "dumps (JBool b) = (if b then ''true'' else ''false'')"
| "dumps (JString s) = encode_string s"
| "dumps (JArray vs) = ''['' @ dumps_items vs @ '']''"
| "dumps (JObject kvs) = ''{'' @ dumps_members kvs @ ''}''"
| "dumps_items [] = []"
| "dumps_items [v] = dumps v"
| "dumps_items (v # w # vs) = dumps v @ '', '' @ dumps_items (w # vs)"
| "dumps_members [] = []"
| "dumps_members [(k, v)] = encode_string k @ '': '' @ dumps v"
| "dumps_members ((k, v) # kv # kvs) =
     encode_string k @ '': '' @ dumps v @ '', '' @ dumps_members (kv # kvs)"

section \<open>Prompt generator\<close>

record applicant =
  Full_Name :: string
  Gender :: string
  Race :: string

definition models :: "string list" where
  "models =
     [''gpt-3.5-turbo-0125'', ''gpt-4o-mini-2024-07-18'', ''gpt-4o-2024-08-06'',
      ''google/gemma-2-2b-it'', ''meta-llama/Meta-Llama-3-8B-Instruct'',
      ''meta-llama/Llama-3.2-3B-Instruct'', ''microsoft/Phi-3-mini-4k-instruct'']"

definition occupation :: "string list" where
  "occupation =
     [''doctor'', ''software engineer'', ''accountant'', ''teacher'', ''retail associate'',
      ''construction worker'', ''food service worker'', ''college student'',
      ''government worker'', ''unemployed'', ''None-control'']"

definition living_status :: "string list" where
  "living_status =
     [''just myself'', ''my roommate and I'', ''my pet and I'', ''my spouse and I'',
      ''my family with kids'', ''None-control'']"

text \<open>
  A row of the seed table. The two response columns are \<open>nan\<close> in every row and are
  left out.
\<close>

record seed_row =
  run_id :: nat
  name :: string
  gender :: string
  race :: string
  row_occupation :: string
  row_living_status :: string

text \<open>
  The four nested loops, in their order; \<open>run_id\<close> counts the rows from 0 in the order
  they are appended.
\<close>

definition combinations :: "applicant list \<Rightarrow> (applicant \<times> string \<times> string) list" where
  "combinations names_list =
     [(a, job, status). a \<leftarrow> names_list, job \<leftarrow> occupation, status \<leftarrow> living_status,
        x \<leftarrow> [0..<3]]"

definition make_row :: "nat \<times> applicant \<times> string \<times> string \<Rightarrow> seed_row" where
  "make_row p =
     (case p of (i, a, job, status) \<Rightarrow>
        \<lparr>run_id = i, name = Full_Name a, gender = Gender a, race = Race a,
         row_occupation = job, row_living_status = status\<rparr>)"

definition row_list :: "applicant list \<Rightarrow> seed_row list" where
  "row_list names_list = map make_row (enumerate 0 (combinations names_list))"

text \<open>
  \<^verbatim>\<open>df.groupby(keys)['run_id'].count()\<close>: one count for every key combination that
  occurs; \<^verbatim>\<open>nunique\<close> is the number of distinct counts.
\<close>

definition group_count :: "(seed_row \<Rightarrow> 'k) \<Rightarrow> 'k \<Rightarrow> seed_row list \<Rightarrow> nat" where
  "group_count key k df = length (filter (\<lambda>r. key r = k) df)"

definition group_counts :: "(seed_row \<Rightarrow> 'k) \<Rightarrow> seed_row list \<Rightarrow> nat list" where
  "group_counts key df = map (\<lambda>k. group_count key k df) (remdups (map key df))"

definition nunique :: "nat list \<Rightarrow> nat" where
  "nunique xs = length (remdups xs)"

text \<open>
  The four assertions. A table without rows has no columns, and the first
  \<^verbatim>\<open>groupby\<close> raises \<open>KeyError\<close>.
\<close>

definition key_all :: "seed_row \<Rightarrow> string \<times> string \<times> string \<times> string" where
  "key_all r = (gender r, race r, row_occupation r, row_living_status r)"

definition key_gender_race :: "seed_row \<Rightarrow> string \<times> string" where
  "key_gender_race r = (gender r, race r)"

definition key_race_occupation :: "seed_row \<Rightarrow> string \<times> string" where
  "key_race_occupation r = (race r, row_occupation r)"

definition key_occupation_status :: "seed_row \<Rightarrow> string \<times> string" where
  "key_occupation_status r = (row_occupation r, row_living_status r)"

definition check_counts :: "seed_row list \<Rightarrow> py_error + unit" where
  "check_counts df =
     (if df = [] then Inl KeyError
      else if nunique (group_counts key_all df) \<noteq> 1 then Inl AssertionError
      else if nunique (group_counts key_gender_race df) \<noteq> 1 then Inl AssertionError
      else if nunique (group_counts key_race_occupation df) \<noteq> 1 then Inl AssertionError
      else if nunique (group_counts key_occupation_status df) \<noteq> 1 then Inl AssertionError
      else Inr ())"

text \<open>Python's \<open>str\<close> of a non-negative integer.\<close>

definition digit_char :: "nat \<Rightarrow> char" where
  "digit_char d = ''0123456789'' ! d"

fun str_nat :: "nat \<Rightarrow> string" where
  "str_nat n = (if n < 10 then [digit_char n] else str_nat (n div 10) @ [digit_char (n mod 10)])"

declare str_nat.simps [simp del]

text \<open>\<^verbatim>\<open>version.split('/')[-1]\<close>\<close>

definition last_segment :: "string \<Rightarrow> string" where
  "last_segment version = rev (takeWhile (\<lambda>c. c \<noteq> CHR ''/'') (rev version))"

definition request_path :: "string \<Rightarrow> string \<Rightarrow> string" where
  "request_path run_prefix version =
     ''input_data/batch_requests/'' @ run_prefix @ ''_'' @ last_segment version @ ''.jsonl''"

text \<open>
  The task dictionary. The prompt function \<^verbatim>\<open>generate_prompt_landlord\<close> is not part
  of the notebook as published; it is a parameter.
\<close>

definition make_task :: "(string \<Rightarrow> string \<Rightarrow> string \<Rightarrow> string) \<Rightarrow> string \<Rightarrow> seed_row \<Rightarrow> json" where
  "make_task generate_prompt_landlord version row =
     JObject
       [(''custom_id'', JString (''task-'' @ str_nat (run_id row))),
        (''method'', JString ''POST''),
        (''url'', JString ''/v1/chat/completions''),
        (''body'', JObject
           [(''model'', JString version),
            (''messages'', JArray
               [JObject
                  [(''role'', JString ''user''),
                   (''content'', JString (generate_prompt_landlord (name row)
                       (row_occupation row) (row_living_status row)))]])])]"

text \<open>
  A request file is the list of the lines written to it, each followed by a newline.
  Opening a path for writing replaces what was there.
\<close>

definition write_requests ::
  "string \<Rightarrow> (string \<Rightarrow> string \<Rightarrow> string \<Rightarrow> string) \<Rightarrow> seed_row list \<Rightarrow> string list
     \<Rightarrow> (string \<rightharpoonup> string list)" where
  "write_requests run_prefix generate_prompt_landlord df versions =
     fold (\<lambda>version files.
             files(request_path run_prefix version \<mapsto>
                     map (\<lambda>row. dumps (make_task generate_prompt_landlord version row)) df))
          versions Map.empty"

definition file_text :: "string list \<Rightarrow> string" where
  "file_text lines = concat (map (\<lambda>l. l @ [CHR 0x0A]) lines)"

text \<open>
  The notebook from the names to the request files: the assertions come before the
  seed table and the request files are written, and a failed one ends the run.
\<close>

definition generator ::
  "string \<Rightarrow> (string \<Rightarrow> string \<Rightarrow> string \<Rightarrow> string) \<Rightarrow> applicant list
     \<Rightarrow> py_error + (seed_row list \<times> (string \<rightharpoonup> string list))" where
  "generator run_prefix generate_prompt_landlord names_list =
     (let df = row_list names_list in
      case check_counts df of
        Inl e \<Rightarrow> Inl e
      | Inr u \<Rightarrow> Inr (df, write_requests run_prefix generate_prompt_landlord df models))"

section \<open>Response merger\<close>

text \<open>
  A result file is its path and the records that \<^verbatim>\<open>pd.read_json(file, lines=True)\<close>
  yields, one JSON object for each line. The cells of the normalized table are JSON
  values; a missing cell (\<open>nan\<close>) is \<open>None\<close>.
\<close>

record result_row =
  custom_id :: json
  model :: json
  content :: "json option"

definition and_then :: "py_error + 'a \<Rightarrow> ('a \<Rightarrow> py_error + 'b) \<Rightarrow> py_error + 'b" where
  "and_then r f = (case r of Inl e \<Rightarrow> Inl e | Inr x \<Rightarrow> f x)"

text \<open>Indexing a dictionary; in a parsed object the last of several equal keys counts.\<close>

fun get_key :: "string \<Rightarrow> json \<Rightarrow> py_error + json" where
  "get_key k (JObject kvs) = (case map_of (rev kvs) k of Some v \<Rightarrow> Inr v | None \<Rightarrow> Inl KeyError)"
| "get_key k v = Inl TypeError"

fun get_list :: "json \<Rightarrow> py_error + json list" where
  "get_list (JArray vs) = Inr vs"
| "get_list v = Inl TypeError"

text \<open>
  The value found at the end of the record path: a list gives its items, a null gives
  no records, and anything else raises \<open>TypeError\<close>.
\<close>

fun pull_records :: "json \<Rightarrow> py_error + json list" where
  "pull_records (JArray vs) = Inr vs"
| "pull_records JNull = Inr []"
| "pull_records v = Inl TypeError"

text \<open>
  A flattened column of a record-path item: absent when a key on the way is, and when
  the value is itself a dictionary, which is flattened further into columns of its own.
\<close>

fun flat_cell :: "json \<Rightarrow> json option" where
  "flat_cell (JObject kvs) = None"
| "flat_cell v = Some v"

definition flat_column :: "string \<Rightarrow> string \<Rightarrow> json \<Rightarrow> json option" where
  "flat_column k1 k2 item =
     (case get_key k1 item of
        Inl e \<Rightarrow> None
      | Inr v \<Rightarrow> (case get_key k2 v of Inl e \<Rightarrow> None | Inr w \<Rightarrow> flat_cell w))"

definition flat_column1 :: "string \<Rightarrow> json \<Rightarrow> json option" where
  "flat_column1 k item = (case get_key k item of Inl e \<Rightarrow> None | Inr v \<Rightarrow> flat_cell v)"

text \<open>
  \<^verbatim>\<open>json_normalize\<close> with record path \<open>response.body.choices\<close> and the meta columns
  \<open>custom_id\<close> and \<open>response.body.model\<close>: one row for every choice. The top-level
  meta column is read before the record path is entered, the nested one after the
  records are pulled; a record whose \<open>choices\<close> is null contributes no row.
\<close>

definition normalize_standard :: "json \<Rightarrow> py_error + result_row list" where
  "normalize_standard rec =
     and_then (get_key ''custom_id'' rec) (\<lambda>cid.
     and_then (get_key ''response'' rec) (\<lambda>response.
     and_then (get_key ''body'' response) (\<lambda>body.
     and_then (get_key ''choices'' body) (\<lambda>choices.
     and_then (pull_records choices) (\<lambda>items.
     and_then (get_key ''model'' body) (\<lambda>m.
       Inr (map (\<lambda>choice. \<lparr>custom_id = cid, model = m,
                              content = flat_column ''message'' ''content'' choice\<rparr>) items)))))))"

text \<open>
  The other shape: record path \<open>result.message.content\<close>, meta columns \<open>custom_id\<close>
  and \<open>result.message.model\<close>: one row for every content block, and none for a
  record whose \<open>content\<close> is null.
\<close>

definition normalize_claude :: "json \<Rightarrow> py_error + result_row list" where
  "normalize_claude rec =
     and_then (get_key ''custom_id'' rec) (\<lambda>cid.
     and_then (get_key ''result'' rec) (\<lambda>result.
     and_then (get_key ''message'' result) (\<lambda>message.
     and_then (get_key ''content'' message) (\<lambda>blocks.
     and_then (pull_records blocks) (\<lambda>items.
     and_then (get_key ''model'' message) (\<lambda>m.
       Inr (map (\<lambda>block. \<lparr>custom_id = cid, model = m,
                             content = flat_column1 ''text'' block\<rparr>) items)))))))"

fun normalize_records :: "(json \<Rightarrow> py_error + result_row list) \<Rightarrow> json list \<Rightarrow> py_error + result_row list" where
  "normalize_records f [] = Inr []"
| "normalize_records f (rec # recs) =
     and_then (f rec) (\<lambda>rows.
     and_then (normalize_records f recs) (\<lambda>more. Inr (rows @ more)))"

fun top_level_keys :: "json \<Rightarrow> string list" where
  "top_level_keys (JObject kvs) = map fst kvs"
| "top_level_keys v = []"

text \<open>
  The branch on the shape, and the selection of the three columns, which raises
  \<open>KeyError\<close> when no row has the content column. The test
  \<^verbatim>\<open>'claude' in file or any(df.columns.str.contains('result'))\<close> looks at the
  columns only when the path does not decide; the table read from a file without
  records has no string columns, and \<^verbatim>\<open>.str\<close> raises \<open>AttributeError\<close> on it.
\<close>

definition claude_format :: "string \<times> json list \<Rightarrow> py_error + bool" where
  "claude_format file =
     (case file of (path, records) \<Rightarrow>
        if str_contains ''claude'' path then Inr True
        else if records = [] then Inl AttributeError
        else Inr (list_ex (\<lambda>rec. list_ex (str_contains ''result'') (top_level_keys rec)) records))"

definition normalize_file :: "string \<times> json list \<Rightarrow> py_error + result_row list" where
  "normalize_file file =
     and_then (claude_format file) (\<lambda>claude.
     and_then
       (if claude then normalize_records normalize_claude (snd file)
        else normalize_records normalize_standard (snd file))
       (\<lambda>rows. if list_all (\<lambda>r. content r = None) rows then Inl KeyError else Inr rows))"

text \<open>
  The seed table gets its \<open>custom_id\<close> column, and the inner join keeps a pair for
  every result row and seed row with the same \<open>custom_id\<close>.
\<close>

definition seed_custom_id :: "seed_row \<Rightarrow> json" where
  "seed_custom_id s = JString (''task-'' @ str_nat (run_id s))"

definition merge_inner :: "result_row list \<Rightarrow> seed_row list \<Rightarrow> (result_row \<times> seed_row) list" where
  "merge_inner df df_seed =
     concat (map (\<lambda>r. map (\<lambda>s. (r, s)) (filter (\<lambda>s. seed_custom_id s = custom_id r) df_seed)) df)"

fun merge_files ::
  "seed_row list \<Rightarrow> (string \<times> json list) list \<Rightarrow> py_error + (result_row \<times> seed_row) list list" where
  "merge_files df_seed [] = Inr []"
| "merge_files df_seed (file # fns) =
     and_then (normalize_file file) (\<lambda>df.
     and_then (merge_files df_seed fns) (\<lambda>dfs. Inr (merge_inner df df_seed # dfs)))"

text \<open>\<^verbatim>\<open>pd.concat(dfs)\<close> raises \<open>ValueError\<close> when there is nothing to concatenate.\<close>

definition merge_all ::
  "seed_row list \<Rightarrow> (string \<times> json list) list \<Rightarrow> py_error + (result_row \<times> seed_row) list" where
  "merge_all df_seed fns =
     and_then (merge_files df_seed fns) (\<lambda>dfs. if dfs = [] then Inl ValueError else Inr (concat dfs))"

text \<open>
  The assertion
  \<^verbatim>\<open>len(df_all)/len(df_all['custom_id'].unique()) == len(df_all['model'].unique())\<close>.
  The division is Python's true division, here on the reals; it raises
  \<open>ZeroDivisionError\<close> on a table without rows.
\<close>

definition n_custom_ids :: "(result_row \<times> seed_row) list \<Rightarrow> nat" where
  "n_custom_ids df_all = length (remdups (map (\<lambda>row. custom_id (fst row)) df_all))"

definition n_models :: "(result_row \<times> seed_row) list \<Rightarrow> nat" where
  "n_models df_all = length (remdups (map (\<lambda>row. model (fst row)) df_all))"

definition merge_check :: "(result_row \<times> seed_row) list \<Rightarrow> py_error + unit" where
  "merge_check df_all =
     (if n_custom_ids df_all = 0 then Inl ZeroDivisionError
      else if real (length df_all) / real (n_custom_ids df_all) = real (n_models df_all)
        then Inr ()
      else Inl AssertionError)"

definition merger ::
  "seed_row list \<Rightarrow> (string \<times> json list) list \<Rightarrow> py_error + (result_row \<times> seed_row) list" where
  "merger df_seed fns =
     and_then (merge_all df_seed fns) (\<lambda>df_all.
     and_then (merge_check df_all) (\<lambda>u. Inr df_all))"

section \<open>Reading a request file back\<close>

text \<open>
  \<^verbatim>\<open>pd.read_json(file, lines=True)\<close> splits the text at the newlines, strips every
  line, drops the empty ones, joins the rest with commas between brackets and parses
  the result as one JSON array. The parser below reads the JSON subset of \<open>json\<close>;
  its recursion is bounded by a fuel argument, which the top-level function sets to the
  length of the text.
\<close>

definition is_ws :: "char \<Rightarrow> bool" where
  "is_ws c = (c \<in> set [CHR 0x20, CHR 0x09, CHR 0x0A, CHR 0x0D])"

definition skip_ws :: "string \<Rightarrow> string" where
  "skip_ws s = dropWhile is_ws s"

definition hex_val :: "char \<Rightarrow> nat option" where
  "hex_val c = map_of (zip ''0123456789abcdefABCDEF'' ([0..<16] @ [10..<16])) c"

definition hex4 :: "string \<Rightarrow> nat option" where
  "hex4 s =
     (case map hex_val s of
        [Some a, Some b, Some c, Some d] \<Rightarrow> Some (((a * 16 + b) * 16 + c) * 16 + d)
      | _ \<Rightarrow> None)"

definition unescape :: "char \<Rightarrow> char option" where
  "unescape e =
     map_of [(CHR 0x22, CHR 0x22), (CHR 0x5C, CHR 0x5C), (CHR ''/'', CHR ''/''),
             (CHR ''b'', CHR 0x08), (CHR ''f'', CHR 0x0C), (CHR ''n'', CHR 0x0A),
             (CHR ''r'', CHR 0x0D), (CHR ''t'', CHR 0x09)] e"

definition cons_result :: "char \<Rightarrow> (string \<times> string) option \<Rightarrow> (string \<times> string) option" where
  "cons_result c r = map_option (\<lambda>p. (c # fst p, snd p)) r"

text \<open>
  The characters of a string after its opening quote, up to the closing quote. An
  escape \<^verbatim>\<open>\uXXXX\<close> for a code point of 256 or more is outside the modelled strings.
\<close>

function parse_string_body :: "string \<Rightarrow> (string \<times> string) option" where
  "parse_string_body [] = None"
| "parse_string_body (c # cs) =
     (if c = CHR 0x22 then Some ([], cs)
      else if c = CHR 0x5C then
        (case cs of
           [] \<Rightarrow> None
         | e # rest \<Rightarrow>
             if e = CHR ''u'' then
               (case hex4 (take 4 rest) of
                  None \<Rightarrow> None
                | Some n \<Rightarrow>
                    if n < 256 then cons_result (char_of n) (parse_string_body (drop 4 rest))
                    else None)
             else
               (case unescape e of
                  None \<Rightarrow> None
                | Some ch \<Rightarrow> cons_result ch (parse_string_body rest)))
      else if (of_char c :: nat) < 32 then None
      else cons_result c (parse_string_body cs))"
  by pat_completeness auto

termination
  by (relation "measure length") auto

fun parse_value :: "nat \<Rightarrow> string \<Rightarrow> (json \<times> string) option"
  and parse_items :: "nat \<Rightarrow> string \<Rightarrow> (json list \<times> string) option"
  and parse_pairs :: "nat \<Rightarrow> string \<Rightarrow> ((string \<times> json) list \<times> string) option" where
  "parse_value 0 s = None"
| "parse_value (Suc n) s =
     (case skip_ws s of
        [] \<Rightarrow> None
      | c # cs \<Rightarrow>
          if c = CHR 0x22 then
            map_option (\<lambda>p. (JString (fst p), snd p)) (parse_string_body cs)
          else if c = CHR ''['' then
            (case skip_ws cs of
               [] \<Rightarrow> None
             | d # ds \<Rightarrow>
                 if d = CHR '']'' then Some (JArray [], ds)
                 else map_option (\<lambda>p. (JArray (fst p), snd p)) (parse_items n (d # ds)))
          else if c = CHR ''{'' then
            (case skip_ws cs of
               [] \<Rightarrow> None
             | d # ds \<Rightarrow>
                 if d = CHR ''}'' then Some (JObject [], ds)
                 else map_option (\<lambda>p. (JObject (fst p), snd p)) (parse_pairs n (d # ds)))
          else if prefix ''null'' (c # cs) then Some (JNull, drop 4 (c # cs))
          else if prefix ''true'' (c # cs) then Some (JBool True, drop 4 (c # cs))
          else if prefix ''false'' (c # cs) then Some (JBool False, drop 5 (c # cs))
          else None)"
| "parse_items 0 s = None"
| "parse_items (Suc n) s =
     (case parse_value n s of
        None \<Rightarrow> None
      | Some (v, r) \<Rightarrow>
          (case skip_ws r of
             [] \<Rightarrow> None
           | c # cs \<Rightarrow>
               if c = CHR '','' then
                 map_option (\<lambda>p. (v # fst p, snd p)) (parse_items n cs)
               else if c = CHR '']'' then Some ([v], cs)
               else None))"
| "parse_pairs 0 s = None"
| "parse_pairs (Suc n) s =
     (case skip_ws s of
        [] \<Rightarrow> None
      | c # cs \<Rightarrow>
          if c \<noteq> CHR 0x22 then None
          else
            (case parse_string_body cs of
               None \<Rightarrow> None
             | Some (k, r) \<Rightarrow>
                 (case skip_ws r of
                    [] \<Rightarrow> None
                  | d # ds \<Rightarrow>
                      if d \<noteq> CHR '':'' then None
                      else
                        (case parse_value n ds of
                           None \<Rightarrow> None
                         | Some (v, r') \<Rightarrow>
                             (case skip_ws r' of
                                [] \<Rightarrow> None
                              | e # es \<Rightarrow>
                                  if e = CHR '','' then
                                    map_option (\<lambda>p. ((k, v) # fst p, snd p)) (parse_pairs n es)
                                  else if e = CHR ''}'' then Some ([(k, v)], es)
                                  else None)))))"

definition json_loads :: "string \<Rightarrow> json option" where
  "json_loads s =
     (case parse_value (length s) s of
        None \<Rightarrow> None
      | Some (v, rest) \<Rightarrow> if skip_ws rest = [] then Some v else None)"

text \<open>\<^verbatim>\<open>data.split("\n")\<close>, \<^verbatim>\<open>line.strip()\<close> and the joined array text.\<close>

fun split_on :: "char \<Rightarrow> string \<Rightarrow> string list" where
  "split_on sep [] = [[]]"
| "split_on sep (c # cs) =
     (if c = sep then [] # split_on sep cs
      else (case split_on sep cs of l # ls \<Rightarrow> (c # l) # ls | [] \<Rightarrow> [[c]]))"

definition is_space :: "char \<Rightarrow> bool" where
  "is_space c = ((of_char c :: nat) \<in> set [9, 10, 11, 12, 13, 28, 29, 30, 31, 32, 133, 160])"

definition py_strip :: "string \<Rightarrow> string" where
  "py_strip s = rev (dropWhile is_space (rev (dropWhile is_space s)))"

fun join_comma :: "string list \<Rightarrow> string" where
  "join_comma [] = []"
| "join_comma [l] = l"
| "join_comma (l # m # ls) = l @ '','' @ join_comma (m # ls)"

definition combine_lines :: "string list \<Rightarrow> string" where
  "combine_lines lines = ''['' @ join_comma (filter (\<lambda>l. l \<noteq> []) (map py_strip lines)) @ '']''"

definition read_json_lines :: "string \<Rightarrow> json list option" where
  "read_json_lines data =
     (case json_loads (combine_lines (split_on (CHR 0x0A) data)) of
        Some (JArray records) \<Rightarrow> Some records
      | _ \<Rightarrow> None)"

text \<open>The three values of a request record: custom_id, body.model, body.messages[0].content.\<close>

definition request_triple :: "json \<Rightarrow> py_error + (json \<times> json \<times> json)" where
  "request_triple rec =
     and_then (get_key ''custom_id'' rec) (\<lambda>cid.
     and_then (get_key ''body'' rec) (\<lambda>body.
     and_then (get_key ''model'' body) (\<lambda>m.
     and_then (get_key ''messages'' body) (\<lambda>messages.
     and_then (get_list messages) (\<lambda>ms.
       (case ms of
          [] \<Rightarrow> Inl IndexError
        | first # others \<Rightarrow> and_then (get_key ''content'' first) (\<lambda>c. Inr (cid, m, c))))))))"

section \<open>Notions used in the properties\<close>

definition eligible :: "request_file \<Rightarrow> bool" where
  "eligible f \<longleftrightarrow>
     \<not> str_contains ''gpt'' (filename f) \<and> \<not> str_contains ''claude'' (filename f)
     \<and> jq_body_model (first_line f) \<noteq> [] \<and> jq_body_model (first_line f) \<noteq> ''null''"

definition has_output :: "fs \<Rightarrow> request_file \<Rightarrow> bool" where
  "has_output files f \<longleftrightarrow>
     output_file (filename f) \<in> files \<or> output_file_zip (filename f) \<in> files"

text \<open>The three pairs of factors that no assertion looks at.\<close>

definition key_race_status :: "seed_row \<Rightarrow> string \<times> string" where
  "key_race_status r = (race r, row_living_status r)"

definition key_gender_occupation :: "seed_row \<Rightarrow> string \<times> string" where
  "key_gender_occupation r = (gender r, row_occupation r)"

definition key_gender_status :: "seed_row \<Rightarrow> string \<times> string" where
  "key_gender_status r = (gender r, row_living_status r)"

definition row_key :: "result_row \<times> seed_row \<Rightarrow> json \<times> json" where
  "row_key row = (custom_id (fst row), model (fst row))"

text \<open>Every task answered by every model, exactly once.\<close>

definition complete_table :: "(result_row \<times> seed_row) list \<Rightarrow> bool" where
  "complete_table df_all \<longleftrightarrow>
     distinct (map row_key df_all)
     \<and> set (map row_key df_all)
         = set (map (\<lambda>row. custom_id (fst row)) df_all) \<times> set (map (\<lambda>row. model (fst row)) df_all)"

text \<open>The fuel a value needs: the number of its nodes, counting every list element.\<close>

fun nodes :: "json \<Rightarrow> nat"
  and nodes_items :: "json list \<Rightarrow> nat"
  and nodes_pairs :: "(string \<times> json) list \<Rightarrow> nat" where
  "nodes JNull = 1"
| "nodes (JBool b) = 1"
| "nodes (JString s) = 1"
| "nodes (JArray vs) = 1 + nodes_items vs"
| "nodes (JObject kvs) = 1 + nodes_pairs kvs"
| "nodes_items [] = 0"
| "nodes_items (v # vs) = 1 + nodes v + nodes_items vs"
| "nodes_pairs [] = 0"
| "nodes_pairs (kv # kvs) = 1 + nodes (snd kv) + nodes_pairs kvs"

definition starts_value :: "string \<Rightarrow> bool" where
  "starts_value s \<longleftrightarrow>
     (case s of [] \<Rightarrow> False
      | c # t \<Rightarrow> c \<in> set [CHR ''n'', CHR ''t'', CHR ''f'', CHR 0x22, CHR ''['', CHR ''{''])"

section \<open>Example inputs\<close>

text \<open>A subprocess that succeeds: it writes the output file it was given.\<close>

definition writes_output :: "run_batch \<Rightarrow> fs \<Rightarrow> fs" where
  "writes_output command files = insert (cmd_output command) files"

definition example_prompt :: "string \<Rightarrow> string \<Rightarrow> string \<Rightarrow> string" where
  "example_prompt n j s = ''Tenant '' @ n @ '', '' @ j @ '', '' @ s"

definition balanced_names :: "applicant list" where
  "balanced_names =
     [\<lparr>Full_Name = ''Adam Smith'', Gender = ''Man'', Race = ''White''\<rparr>,
      \<lparr>Full_Name = ''Anna Jones'', Gender = ''Woman'', Race = ''White''\<rparr>]"

text \<open>Three first names, each paired with two last names of its race.\<close>

definition unbalanced_names :: "applicant list" where
  "unbalanced_names =
     [\<lparr>Full_Name = ''Adam Smith'', Gender = ''Man'', Race = ''White''\<rparr>,
      \<lparr>Full_Name = ''Adam Jones'', Gender = ''Man'', Race = ''White''\<rparr>,
      \<lparr>Full_Name = ''Jamal Brown'', Gender = ''Man'', Race = ''Black''\<rparr>,
      \<lparr>Full_Name = ''Jamal Davis'', Gender = ''Man'', Race = ''Black''\<rparr>,
      \<lparr>Full_Name = ''Maria Garcia'', Gender = ''Woman'', Race = ''Hispanic''\<rparr>,
      \<lparr>Full_Name = ''Maria Lopez'', Gender = ''Woman'', Race = ''Hispanic''\<rparr>]"

text \<open>Two applicants of one gender and race, and one of another.\<close>

definition skewed_names :: "applicant list" where
  "skewed_names =
     [\<lparr>Full_Name = ''Adam Smith'', Gender = ''Man'', Race = ''White''\<rparr>,
      \<lparr>Full_Name = ''Adam Jones'', Gender = ''Man'', Race = ''White''\<rparr>,
      \<lparr>Full_Name = ''Jamal Brown'', Gender = ''Man'', Race = ''Black''\<rparr>]"

text \<open>127 first-name rows, each paired with the same two last names: 254 applicants.\<close>

definition many_names :: "applicant list" where
  "many_names =
     concat (replicate 127
       [\<lparr>Full_Name = ''Alex Smith'', Gender = ''Man'', Race = ''White''\<rparr>,
        \<lparr>Full_Name = ''Alex Jones'', Gender = ''Man'', Race = ''White''\<rparr>])"

definition chat_completion :: "string \<Rightarrow> string \<Rightarrow> string \<Rightarrow> json" where
  "chat_completion cid m answer =
     JObject
       [(''id'', JString ''batch_req''),
        (''custom_id'', JString cid),
        (''response'', JObject
           [(''body'', JObject
               [(''model'', JString m),
                (''choices'', JArray
                   [JObject [(''message'', JObject
                       [(''role'', JString ''assistant''), (''content'', JString answer)])]])])]),
        (''error'', JNull)]"

definition example_task :: "nat \<Rightarrow> seed_row" where
  "example_task i =
     \<lparr>run_id = i, name = ''Adam Smith'', gender = ''Man'', race = ''White'',
      row_occupation = ''doctor'', row_living_status = ''just myself''\<rparr>"

definition two_tasks :: "seed_row list" where
  "two_tasks = [example_task 0, example_task 1]"

definition answer_row :: "string \<Rightarrow> string \<Rightarrow> string \<Rightarrow> nat \<Rightarrow> result_row \<times> seed_row" where
  "answer_row cid m answer i =
     (\<lparr>custom_id = JString cid, model = JString m, content = Some (JString answer)\<rparr>,
      example_task i)"

definition gemma_results :: "string \<times> json list" where
  "gemma_results =
     (''input_data/batch_results/housing_prompt_v2_gemma-2-2b-it_output.jsonl'',
      [chat_completion ''task-0'' ''google/gemma-2-2b-it'' ''$2,500'',
       chat_completion ''task-1'' ''google/gemma-2-2b-it'' ''$2,600''])"

definition gemma_results_missing_one :: "string \<times> json list" where
  "gemma_results_missing_one =
     (''input_data/batch_results/housing_prompt_v2_gemma-2-2b-it_output.jsonl'',
      [chat_completion ''task-0'' ''google/gemma-2-2b-it'' ''$2,500''])"

definition phi_results :: "string \<times> json list" where
  "phi_results =
     (''input_data/batch_results/housing_prompt_v2_Phi-3-mini-4k-instruct_output.jsonl'',
      [chat_completion ''task-0'' ''microsoft/Phi-3-mini-4k-instruct'' ''I would say $3,000'',
       chat_completion ''task-1'' ''microsoft/Phi-3-mini-4k-instruct'' ''$2,900''])"

chapter \<open>Properties\<close>

section \<open>Properties of the response parser\<close>

subsection \<open>Facts about the scanner\<close>

lemma digits1_SomeD:
  assumes "digits1 s = Some (ds, r)"
  shows "ds \<noteq> []" and "list_all is_digit ds" and "s = ds @ r"
    and "\<exists>c cs. s = c # cs \<and> is_digit c"
proof -
  from assms have ne: "takeWhile is_digit s \<noteq> []"
    and ds: "ds = takeWhile is_digit s" and r: "r = dropWhile is_digit s"
    unfolding digits1_def by (auto split: if_splits)
  show "ds \<noteq> []" using ne ds by simp
  show "list_all is_digit ds"
    unfolding ds list_all_iff by (auto dest: set_takeWhileD)
  show "s = ds @ r" by (simp add: ds r)
  from ne show "\<exists>c cs. s = c # cs \<and> is_digit c"
    by (cases s) (auto split: if_splits)
qed

lemma digits1_NoneD: "digits1 (c # cs) = None \<Longrightarrow> \<not> is_digit c"
  unfolding digits1_def by (auto split: if_splits)

lemma not_digit_dollar: "\<not> is_digit (CHR ''$'')"
  by (simp add: is_digit_def)

lemma not_digit_comma: "\<not> is_digit (CHR '','')"
  by (simp add: is_digit_def)

lemma match_at_NoneD: "match_at (c # cs) = None \<Longrightarrow> \<not> is_digit c"
proof (cases "c = CHR ''$''")
  case True
  then show ?thesis by (simp add: not_digit_dollar)
next
  case False
  assume "match_at (c # cs) = None"
  with False have "digits1 (c # cs) = None"
    by (auto simp: match_at_def split: option.splits prod.splits)
  then show ?thesis by (rule digits1_NoneD)
qed

lemma match_at_Some_digit:
  assumes "match_at s = Some (m, r)"
  shows "\<exists>x \<in> set s. is_digit x"
proof (cases s)
  case Nil
  with assms show ?thesis by (simp add: match_at_def)
next
  case (Cons c cs)
  show ?thesis
  proof (cases "c = CHR ''$''")
    case True
    with assms Cons obtain ds r0 where "digits1 cs = Some (ds, r0)"
      by (auto simp: match_at_def split: option.splits prod.splits)
    from digits1_SomeD(4) [OF this] Cons show ?thesis by auto
  next
    case False
    with assms Cons obtain ds r0 where "digits1 (c # cs) = Some (ds, r0)"
      by (auto simp: match_at_def split: option.splits prod.splits)
    from digits1_SomeD(4) [OF this] Cons show ?thesis by auto
  qed
qed

lemma findall_Nil_iff: "findall s = [] \<longleftrightarrow> \<not> (\<exists>c \<in> set s. is_digit c)"
proof (induction s rule: findall.induct)
  case 1
  show ?case by simp
next
  case (2 c cs)
  show ?case
  proof (cases "match_at (c # cs)")
    case None
    then have nd: "\<not> is_digit c" by (rule match_at_NoneD)
    from None "2.IH" have "findall cs = [] \<longleftrightarrow> \<not> (\<exists>c \<in> set cs. is_digit c)" by simp
    with None nd show ?thesis by simp
  next
    case (Some p)
    obtain m r where p: "p = (m, r)" by (cases p)
    from Some p have "\<exists>x \<in> set (c # cs). is_digit x"
      by (auto dest: match_at_Some_digit simp del: set_simps)
    moreover from Some p have "findall (c # cs) \<noteq> []" by simp
    ultimately show ?thesis by blast
  qed
qed

text \<open>A match, once stripped, is a non-empty digit string.\<close>

lemma strip_symbols_append: "strip_symbols (a @ b) = strip_symbols a @ strip_symbols b"
  by (simp add: strip_symbols_def)

lemma strip_symbols_digits: "list_all is_digit ds \<Longrightarrow> strip_symbols ds = ds"
proof -
  assume a: "list_all is_digit ds"
  have "\<forall>c \<in> set ds. c \<noteq> CHR ''$'' \<and> c \<noteq> CHR '',''"
    using a not_digit_dollar not_digit_comma by (auto simp: list_all_iff)
  then show ?thesis by (simp add: strip_symbols_def)
qed

lemma groups_digits: "groups s = (g, r) \<Longrightarrow> list_all is_digit (strip_symbols g)"
proof (induction s arbitrary: g r rule: groups.induct)
  case 1
  then show ?case by (simp add: strip_symbols_def)
next
  case (2 c cs)
  show ?case
  proof (cases "c = CHR '','' \<and> digits1 cs \<noteq> None")
    case False
    with "2.prems" have "g = []" by (auto split: option.splits)
    then show ?thesis by (simp add: strip_symbols_def)
  next
    case True
    then obtain ds r0 where d: "digits1 cs = Some (ds, r0)" by auto
    obtain g0 r1 where g0: "groups r0 = (g0, r1)" by (cases "groups r0")
    from True d g0 "2.prems" have g: "g = c # ds @ g0" by simp
    have "list_all is_digit (strip_symbols g0)"
      using "2.IH" True d g0 by simp
    moreover have "strip_symbols [c] = []" using True by (simp add: strip_symbols_def)
    moreover have "strip_symbols ds = ds" "list_all is_digit ds"
      using digits1_SomeD(2) [OF d] by (simp_all add: strip_symbols_digits)
    ultimately show ?thesis
      using strip_symbols_append [of "[c]" "ds @ g0"] strip_symbols_append [of ds g0]
      by (simp add: g)
  qed
qed

lemma match_at_digits:
  assumes "match_at s = Some (m, r)"
  shows "strip_symbols m \<noteq> []" and "list_all is_digit (strip_symbols m)"
proof -
  from assms obtain c cs where s: "s = c # cs" by (cases s) (auto simp: match_at_def)
  define t where "t = (if c = CHR ''$'' then cs else s)"
  from assms s obtain ds r0 g where d: "digits1 t = Some (ds, r0)" and g: "groups r0 = (g, r)"
    and m: "m = (if c = CHR ''$'' then c # ds @ g else ds @ g)"
    by (auto simp: match_at_def t_def split: if_splits option.splits prod.splits)
  have ds: "ds \<noteq> []" "list_all is_digit ds" "strip_symbols ds = ds"
    using digits1_SomeD(1,2) [OF d] by (simp_all add: strip_symbols_digits)
  have gd: "list_all is_digit (strip_symbols g)" using g by (rule groups_digits)
  have sm: "strip_symbols m = ds @ strip_symbols g"
    using strip_symbols_append [of "[c]" "ds @ g"] strip_symbols_append [of ds g] ds(3)
    by (auto simp: m strip_symbols_def)
  show "strip_symbols m \<noteq> []" using sm ds(1) by simp
  show "list_all is_digit (strip_symbols m)" using sm ds(2) gd by simp
qed

lemma findall_digits:
  "m \<in> set (findall s) \<Longrightarrow> strip_symbols m \<noteq> [] \<and> list_all is_digit (strip_symbols m)"
proof (induction s rule: findall.induct)
  case 1
  then show ?case by simp
next
  case (2 c cs)
  show ?case
  proof (cases "match_at (c # cs)")
    case None
    with "2.prems" "2.IH" show ?thesis by simp
  next
    case (Some p)
    obtain m0 r where p: "p = (m0, r)" by (cases p)
    from "2.prems" Some p have "m = m0 \<or> m \<in> set (findall r)" by auto
    then show ?thesis
    proof
      assume "m = m0"
      with Some p match_at_digits [of "c # cs" m0 r] show ?thesis by simp
    next
      assume "m \<in> set (findall r)"
      with "2.IH" Some p show ?thesis by simp
    qed
  qed
qed

text \<open>Converted values are never negative; the only exception is the overflow.\<close>

lemma digit_val_nonneg: "is_digit c \<Longrightarrow> 0 \<le> digit_val c"
  by (auto simp: is_digit_def digit_val_def)

lemma foldl_digits_nonneg:
  "list_all is_digit s \<Longrightarrow> 0 \<le> acc \<Longrightarrow> 0 \<le> foldl (\<lambda>acc c. 10 * acc + digit_val c) acc s"
proof (induction s arbitrary: acc)
  case Nil
  then show ?case by simp
next
  case (Cons c s)
  from Cons.prems have "0 \<le> 10 * acc + digit_val c"
    using digit_val_nonneg [of c] by simp
  with Cons show ?case by simp
qed

lemma py_int_nonneg: "py_int s = Inr v \<Longrightarrow> 0 \<le> v"
  by (auto simp: py_int_def foldl_digits_nonneg split: if_splits)

lemma np_int64_nonneg: "np_int64 s = Inr v \<Longrightarrow> 0 \<le> v"
  by (auto simp: np_int64_def split: sum.splits if_splits dest: py_int_nonneg)

lemma np_int64_error:
  "s \<noteq> [] \<Longrightarrow> list_all is_digit s \<Longrightarrow> np_int64 s = Inl e \<Longrightarrow>
     e = OverflowError \<and> 2 ^ 63 \<le> foldl (\<lambda>acc c. 10 * acc + digit_val c) 0 s"
proof -
  assume a: "s \<noteq> []" "list_all is_digit s" "np_int64 s = Inl e"
  have "0 \<le> foldl (\<lambda>acc c. 10 * acc + digit_val c) 0 s"
    using a(2) by (simp add: foldl_digits_nonneg)
  with a show ?thesis
    by (auto simp: np_int64_def py_int_def split: sum.splits if_splits)
qed

lemma convert_all_Inr:
  "convert_all ms = Inr vs \<Longrightarrow> length vs = length ms \<and> (\<forall>v \<in> set vs. 0 \<le> v)"
proof (induction ms arbitrary: vs)
  case Nil
  then show ?case by simp
next
  case (Cons m ms)
  then show ?case
    by (auto split: sum.splits dest: np_int64_nonneg)
qed

lemma convert_all_Inl:
  "convert_all ms = Inl e \<Longrightarrow>
     \<forall>m \<in> set ms. strip_symbols m \<noteq> [] \<and> list_all is_digit (strip_symbols m) \<Longrightarrow>
     e = OverflowError"
proof (induction ms)
  case Nil
  then show ?case by simp
next
  case (Cons m ms)
  then show ?case
    by (auto split: sum.splits dest: np_int64_error)
qed

text \<open>The selected result.\<close>

lemma py_max_eq: "xs \<noteq> [] \<Longrightarrow> py_max xs = Inr (Max (set xs))"
proof (cases xs)
  case Nil
  assume "xs \<noteq> []"
  with Nil show ?thesis by simp
next
  case (Cons a list)
  have "fold max list a = Max (set (a # list))" by (rule Max.set_eq_fold [symmetric])
  with Cons show ?thesis by simp
qed

lemma Max_set_in: "ys \<noteq> [] \<Longrightarrow> Max (set ys) \<in> set (ys :: int list)"
  by (intro Max_in) simp_all

lemma in_set_not_Nil: "x \<in> set ys \<Longrightarrow> ys \<noteq> []"
  by auto

lemma half_le_self: "0 \<le> (m::int) \<Longrightarrow> real_of_int m / 2 \<le> real_of_int m"
  by simp

lemma filter_half_Max:
  assumes "xs \<noteq> []" and "\<forall>v \<in> set xs. 0 \<le> v"
  shows "filter (\<lambda>value. real_of_int value \<ge> real_of_int (Max (set xs)) / 2) xs \<noteq> []"
    and "Max (set (filter (\<lambda>value. real_of_int value \<ge> real_of_int (Max (set xs)) / 2) xs))
           = Max (set xs)"
proof -
  let ?m = "Max (set xs)"
  let ?f = "filter (\<lambda>value. real_of_int value \<ge> real_of_int ?m / 2) xs"
  have m_in: "?m \<in> set xs" using assms(1) by (rule Max_set_in)
  then have "0 \<le> ?m" using assms(2) by blast
  then have "real_of_int ?m / 2 \<le> real_of_int ?m" by (rule half_le_self)
  with m_in have in_f: "?m \<in> set ?f" by simp
  then show "?f \<noteq> []" by (rule in_set_not_Nil)
  have "\<forall>v \<in> set ?f. v \<le> ?m" by simp
  with in_f show "Max (set ?f) = ?m"
    by (intro Max_eqI) auto
qed

lemma select_result_in_range:
  assumes "\<forall>v \<in> set values. 0 \<le> v"
    and "filter (\<lambda>value. lo \<le> value \<and> value \<le> hi) values \<noteq> []"
  shows "select_result lo hi values =
           Inr (Max (set (filter (\<lambda>value. lo \<le> value \<and> value \<le> hi) values)))"
proof -
  let ?r = "filter (\<lambda>value. lo \<le> value \<and> value \<le> hi) values"
  have nn: "\<forall>v \<in> set ?r. 0 \<le> v" using assms(1) by simp
  have "py_max ?r = Inr (Max (set ?r))" using assms(2) by (rule py_max_eq)
  moreover have "py_max (filter (\<lambda>value. real_of_int value \<ge> real_of_int (Max (set ?r)) / 2) ?r)
      = Inr (Max (set ?r))"
    using filter_half_Max [OF assms(2) nn] by (simp add: py_max_eq)
  ultimately show ?thesis
    using assms(2) by (simp add: select_result_def Let_def)
qed

lemma select_result_fallback:
  "filter (\<lambda>value. lo \<le> value \<and> value \<le> hi) values = [] \<Longrightarrow>
     select_result lo hi values = py_max values"
  by (simp add: select_result_def)

lemma select_result_total:
  assumes "values \<noteq> []" and "\<forall>v \<in> set values. 0 \<le> v"
  shows "\<exists>r. select_result lo hi values = Inr r \<and> r \<in> set values"
proof (cases "filter (\<lambda>value. lo \<le> value \<and> value \<le> hi) values = []")
  case True
  then have "select_result lo hi values = Inr (Max (set values))"
    using assms(1) by (simp add: select_result_fallback py_max_eq)
  moreover have "Max (set values) \<in> set values" using assms(1) by (rule Max_set_in)
  ultimately show ?thesis by blast
next
  case False
  let ?r = "filter (\<lambda>value. lo \<le> value \<and> value \<le> hi) values"
  have "select_result lo hi values = Inr (Max (set ?r))"
    using assms(2) False by (rule select_result_in_range)
  moreover have "Max (set ?r) \<in> set ?r" using False by (rule Max_set_in)
  then have "Max (set ?r) \<in> set values" by simp
  ultimately show ?thesis by blast
qed

lemma extracted_values_Inr:
  "extracted_values text = Inr values \<Longrightarrow>
     (values = [] \<longleftrightarrow> findall text = []) \<and> (\<forall>v \<in> set values. 0 \<le> v)"
  unfolding extracted_values_def by (auto dest: convert_all_Inr)

lemma extracted_values_Inl: "extracted_values text = Inl e \<Longrightarrow> e = OverflowError"
  unfolding extracted_values_def
  by (erule convert_all_Inl) (auto dest: findall_digits)

subsection \<open>Properties of the parser\<close>

lemma select_result_unfiltered_eq:
  assumes "\<forall>v \<in> set values. 0 \<le> v"
  shows "select_result lo hi values = select_result_unfiltered lo hi values"
proof (cases "filter (\<lambda>value. lo \<le> value \<and> value \<le> hi) values = []")
  case True
  then show ?thesis by (simp add: select_result_fallback select_result_unfiltered_def)
next
  case False
  with assms show ?thesis
    by (simp add: select_result_in_range select_result_unfiltered_def py_max_eq)
qed

lemma validate_Number:
  "validate lo hi r = Number n \<Longrightarrow> n = r \<and> lo \<le> n \<and> n \<le> hi"
  by (auto simp: validate_def split: if_splits)

lemma parse_dollar_strict_Number:
  "parse_dollar_strict text a b lo hi = Number n \<Longrightarrow> lo \<le> n \<and> n \<le> hi"
  by (auto simp: parse_dollar_strict_def split: if_splits sum.splits dest: validate_Number)

lemma parse_dollar_strict_digits:
  assumes "findall text \<noteq> []"
  shows "case extracted_values text of
           Inl e \<Rightarrow> e = OverflowError \<and> parse_dollar_strict text a b lo hi = NaN
         | Inr values \<Rightarrow>
             (\<exists>r. select_result a b values = Inr r \<and> r \<in> set values \<and>
                  parse_dollar_strict text a b lo hi = validate lo hi r)"
proof (cases "extracted_values text")
  case (Inl e)
  with assms show ?thesis
    by (simp add: parse_dollar_strict_def extracted_values_Inl)
next
  case (Inr vs)
  from extracted_values_Inr [OF Inr] assms
  have "vs \<noteq> []" and "\<forall>v \<in> set vs. 0 \<le> v" by simp_all
  from select_result_total [OF this]
  obtain r where "select_result a b vs = Inr r" and "r \<in> set vs" by blast
  with Inr assms show ?thesis by (simp add: parse_dollar_strict_def)
qed

text \<open>
  C1 (amended). The five test vectors hold. With the default bounds, the answer is
  REFUSED exactly when the text has no digit; a number is returned only inside
  [2000, 200000]; and a text with a digit is classified from the selected value
  (a number inside the valid range, INVALID_UNDER_MIN below it, INVALID_OVER_MAX above
  it) provided every extracted digit sequence fits a signed 64-bit integer. When one
  does not fit, the conversion overflows and the answer is the NaN sentinel.
\<close>

theorem parse_dollar_strict_classification:
  "parse_dollar_strict ''$8,500'' 2000 20000 2000 200000 = Number 8500
   \<and> parse_dollar_strict ''no amount given'' 2000 20000 2000 200000 = REFUSED
   \<and> parse_dollar_strict ''$500'' 2000 20000 2000 200000 = INVALID_UNDER_MIN
   \<and> parse_dollar_strict ''$250,000'' 2000 20000 2000 200000 = INVALID_OVER_MAX
   \<and> parse_dollar_strict ''I'd offer $8,000, though $50 is a fee'' 2000 20000 2000 200000
       = Number 8000
   \<and> (parse_dollar_strict text 2000 20000 2000 200000 = REFUSED
        \<longleftrightarrow> \<not> (\<exists>c \<in> set text. is_digit c))
   \<and> (\<forall>n. parse_dollar_strict text 2000 20000 2000 200000 = Number n
          \<longrightarrow> 2000 \<le> n \<and> n \<le> 200000)
   \<and> ((\<exists>c \<in> set text. is_digit c) \<longrightarrow>
        (case extracted_values text of
           Inl e \<Rightarrow> e = OverflowError \<and> parse_dollar_strict text 2000 20000 2000 200000 = NaN
         | Inr values \<Rightarrow>
             (\<exists>r. select_result 2000 20000 values = Inr r \<and> r \<in> set values \<and>
                parse_dollar_strict text 2000 20000 2000 200000 =
                  (if 2000 \<le> r \<and> r \<le> 200000 then Number r
                   else if r < 2000 then INVALID_UNDER_MIN
                   else INVALID_OVER_MAX))))"
proof -
  have v1: "parse_dollar_strict ''$8,500'' 2000 20000 2000 200000 = Number 8500"
    by code_simp
  have v2: "parse_dollar_strict ''no amount given'' 2000 20000 2000 200000 = REFUSED"
    by code_simp
  have v3: "parse_dollar_strict ''$500'' 2000 20000 2000 200000 = INVALID_UNDER_MIN"
    by code_simp
  have v4: "parse_dollar_strict ''$250,000'' 2000 20000 2000 200000 = INVALID_OVER_MAX"
    by code_simp
  have v5: "parse_dollar_strict ''I'd offer $8,000, though $50 is a fee'' 2000 20000 2000 200000
       = Number 8000"
    by code_simp
  have refused_iff: "parse_dollar_strict text 2000 20000 2000 200000 = REFUSED
        \<longleftrightarrow> \<not> (\<exists>c \<in> set text. is_digit c)"
  proof (cases "findall text = []")
    case True
    then show ?thesis using findall_Nil_iff [of "text"] by (simp add: parse_dollar_strict_def)
  next
    case False
    have "parse_dollar_strict text 2000 20000 2000 200000 \<noteq> REFUSED"
      using parse_dollar_strict_digits [OF False, of 2000 20000 2000 200000]
      by (auto simp: validate_def split: sum.splits if_splits)
    with False show ?thesis using findall_Nil_iff [of "text"] by simp
  qed
  have num: "\<forall>n. parse_dollar_strict text 2000 20000 2000 200000 = Number n
          \<longrightarrow> 2000 \<le> n \<and> n \<le> 200000"
    by (auto dest: parse_dollar_strict_Number)
  have cls: "(\<exists>c \<in> set text. is_digit c) \<longrightarrow>
        (case extracted_values text of
           Inl e \<Rightarrow> e = OverflowError \<and> parse_dollar_strict text 2000 20000 2000 200000 = NaN
         | Inr values \<Rightarrow>
             (\<exists>r. select_result 2000 20000 values = Inr r \<and> r \<in> set values \<and>
                parse_dollar_strict text 2000 20000 2000 200000 =
                  (if 2000 \<le> r \<and> r \<le> 200000 then Number r
                   else if r < 2000 then INVALID_UNDER_MIN
                   else INVALID_OVER_MAX)))"
  proof
    assume "\<exists>c \<in> set text. is_digit c"
    then have "findall text \<noteq> []" using findall_Nil_iff [of "text"] by simp
    from parse_dollar_strict_digits [OF this, of 2000 20000 2000 200000, unfolded validate_def]
    show "case extracted_values text of
           Inl e \<Rightarrow> e = OverflowError \<and> parse_dollar_strict text 2000 20000 2000 200000 = NaN
         | Inr values \<Rightarrow>
             (\<exists>r. select_result 2000 20000 values = Inr r \<and> r \<in> set values \<and>
                parse_dollar_strict text 2000 20000 2000 200000 =
                  (if 2000 \<le> r \<and> r \<le> 200000 then Number r
                   else if r < 2000 then INVALID_UNDER_MIN
                   else INVALID_OVER_MAX))" .
  qed
  from v1 v2 v3 v4 v5 refused_iff num cls show ?thesis by blast
qed

theorem parse_dollar_strict_classification_witness:
  "(\<exists>c \<in> set ''pay $3,500''. is_digit c)
   \<and> extracted_values ''pay $3,500'' = Inr [3500]
   \<and> select_result 2000 20000 [3500] = Inr 3500
   \<and> parse_dollar_strict ''pay $3,500'' 2000 20000 2000 200000 = Number 3500"
proof -
  have d: "\<exists>c \<in> set ''pay $3,500''. is_digit c" by (simp add: is_digit_def)
  have e: "extracted_values ''pay $3,500'' = Inr [3500]" by code_simp
  from parse_dollar_strict_classification [of "''pay $3,500''"] d
  have "case extracted_values ''pay $3,500'' of
           Inl e \<Rightarrow> e = OverflowError
              \<and> parse_dollar_strict ''pay $3,500'' 2000 20000 2000 200000 = NaN
         | Inr values \<Rightarrow>
             (\<exists>r. select_result 2000 20000 values = Inr r \<and> r \<in> set values \<and>
                parse_dollar_strict ''pay $3,500'' 2000 20000 2000 200000 =
                  (if 2000 \<le> r \<and> r \<le> 200000 then Number r
                   else if r < 2000 then INVALID_UNDER_MIN
                   else INVALID_OVER_MAX))"
    by blast
  then have "select_result 2000 20000 [3500] = Inr 3500
      \<and> parse_dollar_strict ''pay $3,500'' 2000 20000 2000 200000 = Number 3500"
    unfolding e by auto
  with d e show ?thesis by blast
qed

text \<open>
  C1, as stated, fails: a text with a digit sequence too long for a signed 64-bit
  integer is neither a number, nor REFUSED, nor one of the two INVALID strings; the
  overflow handler returns the NaN sentinel.
\<close>

theorem parse_dollar_strict_overflow_counterexample:
  "findall ''99999999999999999999'' = [''99999999999999999999'']
   \<and> parse_dollar_strict ''99999999999999999999'' 2000 20000 2000 200000 = NaN"
  by code_simp

text \<open>
  C9. The refusal flag of a merged row is 1 exactly when the parsed answer is REFUSED,
  INVALID_UNDER_MIN, INVALID_OVER_MAX or the NaN sentinel, and 0 exactly when it is an
  integer, which then lies in [2000, 200000].
\<close>

theorem refused_flag_iff:
  "(refused answer = 1 \<longleftrightarrow>
      query_response_parsed answer \<in> {REFUSED, INVALID_UNDER_MIN, INVALID_OVER_MAX, NaN})
   \<and> (refused answer = 0 \<longleftrightarrow>
      (\<exists>n. query_response_parsed answer = Number n \<and> 2000 \<le> n \<and> n \<le> 200000))"
proof (cases "query_response_parsed answer")
  case (Number n)
  then have "2000 \<le> n \<and> n \<le> 200000"
    unfolding query_response_parsed_def by (rule parse_dollar_strict_Number)
  with Number show ?thesis
    by (simp add: refused_def isna_def query_response_numeric_def)
qed (simp_all add: refused_def isna_def query_response_numeric_def)

theorem refused_flag_iff_witness:
  "refused ''I cannot help with that'' = 1
   \<and> query_response_parsed ''I cannot help with that'' = REFUSED
   \<and> refused ''$2,400 per month'' = 0
   \<and> query_response_parsed ''$2,400 per month'' = Number 2400"
proof -
  have a: "query_response_parsed ''I cannot help with that'' = REFUSED" by code_simp
  have b: "query_response_parsed ''$2,400 per month'' = Number 2400" by code_simp
  from refused_flag_iff [of "''I cannot help with that''"] a
  have "refused ''I cannot help with that'' = 1" by simp
  moreover from refused_flag_iff [of "''$2,400 per month''"] b
  have "refused ''$2,400 per month'' = 0" by simp
  ultimately show ?thesis using a b by simp
qed

text \<open>
  C10. Whenever some extracted value lies in the expected range, the selected result
  is the largest extracted value of that range; dropping the in-range values below half
  of that maximum never changes the result, and the function equals the one without the
  filtering step, for every text and every choice of the four bounds.
\<close>

theorem half_filter_redundant:
  "parse_dollar_strict text min_expected max_expected min_valid max_valid
     = parse_dollar_unfiltered text min_expected max_expected min_valid max_valid
   \<and> (\<forall>values. extracted_values text = Inr values \<and>
         filter (\<lambda>value. min_expected \<le> value \<and> value \<le> max_expected) values \<noteq> [] \<longrightarrow>
         select_result min_expected max_expected values =
           Inr (Max (set (filter (\<lambda>value. min_expected \<le> value \<and> value \<le> max_expected) values))))"
proof -
  have "parse_dollar_strict text min_expected max_expected min_valid max_valid
     = parse_dollar_unfiltered text min_expected max_expected min_valid max_valid"
  proof (cases "extracted_values text")
    case (Inl e)
    then show ?thesis by (simp add: parse_dollar_strict_def parse_dollar_unfiltered_def)
  next
    case (Inr vs)
    then have "\<forall>v \<in> set vs. 0 \<le> v" by (simp add: extracted_values_Inr)
    then have "select_result min_expected max_expected vs
        = select_result_unfiltered min_expected max_expected vs"
      by (rule select_result_unfiltered_eq)
    with Inr show ?thesis by (simp add: parse_dollar_strict_def parse_dollar_unfiltered_def)
  qed
  moreover have "\<forall>values. extracted_values text = Inr values \<and>
         filter (\<lambda>value. min_expected \<le> value \<and> value \<le> max_expected) values \<noteq> [] \<longrightarrow>
         select_result min_expected max_expected values =
           Inr (Max (set (filter (\<lambda>value. min_expected \<le> value \<and> value \<le> max_expected) values)))"
  proof (intro allI impI, elim conjE)
    fix vs
    assume "extracted_values text = Inr vs"
      and ne: "filter (\<lambda>value. min_expected \<le> value \<and> value \<le> max_expected) vs \<noteq> []"
    then have "\<forall>v \<in> set vs. 0 \<le> v" by (simp add: extracted_values_Inr)
    then show "select_result min_expected max_expected vs =
           Inr (Max (set (filter (\<lambda>value. min_expected \<le> value \<and> value \<le> max_expected) vs)))"
      using ne by (rule select_result_in_range)
  qed
  ultimately show ?thesis by blast
qed

theorem half_filter_redundant_witness:
  "extracted_values ''$9,000 or $4,000 plus $30'' = Inr [9000, 4000, 30]
   \<and> filter (\<lambda>value. 2000 \<le> value \<and> value \<le> 20000) [9000, 4000, 30 :: int] = [9000, 4000]
   \<and> select_result 2000 20000 [9000, 4000, 30] = Inr 9000
   \<and> parse_dollar_strict ''$9,000 or $4,000 plus $30'' 2000 20000 2000 200000 = Number 9000
   \<and> parse_dollar_unfiltered ''$9,000 or $4,000 plus $30'' 2000 20000 2000 200000 = Number 9000"
proof -
  have e: "extracted_values ''$9,000 or $4,000 plus $30'' = Inr [9000, 4000, 30]" by code_simp
  have f: "filter (\<lambda>value. 2000 \<le> value \<and> value \<le> 20000) [9000, 4000, 30 :: int] = [9000, 4000]"
    by simp
  have u: "parse_dollar_unfiltered ''$9,000 or $4,000 plus $30'' 2000 20000 2000 200000
      = Number 9000" by code_simp
  note h = half_filter_redundant [of "''$9,000 or $4,000 plus $30''" 2000 20000 2000 200000]
  have ne: "filter (\<lambda>value. 2000 \<le> value \<and> value \<le> 20000) [9000, 4000, 30 :: int] \<noteq> []"
    by simp
  from h e ne have "select_result 2000 20000 [9000, 4000, 30] =
      Inr (Max (set (filter (\<lambda>value. 2000 \<le> value \<and> value \<le> 20000) [9000, 4000, 30])))"
    by blast
  then have s: "select_result 2000 20000 [9000, 4000, 30] = Inr 9000"
    unfolding f by simp
  from h u have "parse_dollar_strict ''$9,000 or $4,000 plus $30'' 2000 20000 2000 200000
      = Number 9000" by simp
  with e f s u show ?thesis by blast
qed

section \<open>Properties of the batch driver and the weight fetcher\<close>

subsection \<open>Facts about the driver loop\<close>

lemma invocations_append: "invocations (a @ b) = invocations a @ invocations b"
  by (induction a rule: invocations.induct) simp_all

lemma driver_file_not_eligible:
  "\<not> eligible f \<Longrightarrow>
     invocations (fst (driver_file cfg runner f files)) = []
     \<and> snd (driver_file cfg runner f files) = files"
  by (auto simp: driver_file_def eligible_def Let_def)

lemma driver_file_exists:
  "has_output files f \<Longrightarrow> \<not> replace cfg \<Longrightarrow>
     invocations (fst (driver_file cfg runner f files)) = []
     \<and> snd (driver_file cfg runner f files) = files"
  by (auto simp: driver_file_def has_output_def Let_def)

lemma driver_file_dry_run:
  "dry_run cfg \<Longrightarrow>
     invocations (fst (driver_file cfg runner f files)) = []
     \<and> snd (driver_file cfg runner f files) = files"
  by (auto simp: driver_file_def Let_def)

lemma driver_file_mono:
  assumes "\<forall>c fs. cmd_output c \<in> runner c fs \<and> fs \<subseteq> runner c fs"
  shows "files \<subseteq> snd (driver_file cfg runner f files)"
  using assms by (auto simp: driver_file_def Let_def)

lemma driver_file_done:
  assumes "\<forall>c fs. cmd_output c \<in> runner c fs \<and> fs \<subseteq> runner c fs"
    and "eligible f" and "\<not> dry_run cfg"
  shows "has_output (snd (driver_file cfg runner f files)) f"
proof (cases "has_output files f \<and> \<not> replace cfg")
  case True
  then show ?thesis by (simp add: driver_file_exists)
next
  case False
  have "cmd_output (build_command cfg (filename f) (jq_body_model (first_line f)))
      = output_file (filename f)"
    by (simp add: build_command_def)
  with assms(1) have "output_file (filename f)
      \<in> runner (build_command cfg (filename f) (jq_body_model (first_line f))) files"
    by metis
  with False assms(2,3) show ?thesis
    by (auto simp: driver_file_def has_output_def eligible_def Let_def)
qed

lemma driver_loop_mono:
  assumes "\<forall>c fs. cmd_output c \<in> runner c fs \<and> fs \<subseteq> runner c fs"
  shows "files \<subseteq> snd (driver_loop cfg runner fl files)"
proof (induction fl arbitrary: files)
  case Nil
  show ?case by simp
next
  case (Cons f fl)
  have "files \<subseteq> snd (driver_file cfg runner f files)"
    using assms by (rule driver_file_mono)
  also have "\<dots> \<subseteq> snd (driver_loop cfg runner fl (snd (driver_file cfg runner f files)))"
    by (rule Cons.IH)
  finally show ?case by (simp add: split_beta)
qed

lemma has_output_mono: "has_output a f \<Longrightarrow> a \<subseteq> b \<Longrightarrow> has_output b f"
  by (auto simp: has_output_def)

lemma driver_loop_done:
  assumes "\<forall>c fs. cmd_output c \<in> runner c fs \<and> fs \<subseteq> runner c fs"
    and "\<not> dry_run cfg"
  shows "\<forall>f \<in> set fl. eligible f \<longrightarrow> has_output (snd (driver_loop cfg runner fl files)) f"
proof (induction fl arbitrary: files)
  case Nil
  show ?case by simp
next
  case (Cons f fl)
  let ?files1 = "snd (driver_file cfg runner f files)"
  let ?files2 = "snd (driver_loop cfg runner fl ?files1)"
  have snd_eq: "snd (driver_loop cfg runner (f # fl) files) = ?files2"
    by (simp add: split_beta)
  have "eligible f \<longrightarrow> has_output ?files2 f"
  proof
    assume "eligible f"
    with assms have "has_output ?files1 f" by (simp add: driver_file_done)
    moreover have "?files1 \<subseteq> ?files2" using assms(1) by (rule driver_loop_mono)
    ultimately show "has_output ?files2 f" by (rule has_output_mono)
  qed
  with Cons.IH [of ?files1] show ?case unfolding snd_eq by simp
qed

lemma driver_loop_all_done:
  assumes "\<not> replace cfg"
    and "\<forall>f \<in> set fl. eligible f \<longrightarrow> has_output files f"
  shows "invocations (fst (driver_loop cfg runner fl files)) = []
         \<and> snd (driver_loop cfg runner fl files) = files"
  using assms(2)
proof (induction fl)
  case Nil
  show ?case by simp
next
  case (Cons f fl)
  have "invocations (fst (driver_file cfg runner f files)) = []
         \<and> snd (driver_file cfg runner f files) = files"
  proof (cases "eligible f")
    case True
    with Cons.prems have "has_output files f" by simp
    then show ?thesis using assms(1) by (rule driver_file_exists)
  next
    case False
    then show ?thesis by (rule driver_file_not_eligible)
  qed
  moreover have "invocations (fst (driver_loop cfg runner fl files)) = []
         \<and> snd (driver_loop cfg runner fl files) = files"
    using Cons by simp
  ultimately show ?case by (simp add: split_beta invocations_append)
qed

lemma driver_loop_dry_run:
  assumes "dry_run cfg"
  shows "invocations (fst (driver_loop cfg runner fl files)) = []
         \<and> snd (driver_loop cfg runner fl files) = files"
proof (induction fl)
  case Nil
  show ?case by simp
next
  case (Cons f fl)
  with driver_file_dry_run [OF assms, of runner f files] show ?case
    by (simp add: split_beta invocations_append)
qed

lemma driver_loop_twice:
  assumes "\<forall>c fs. cmd_output c \<in> runner c fs \<and> fs \<subseteq> runner c fs"
    and "\<not> replace cfg"
  shows "invocations (fst (driver_loop cfg runner fl (snd (driver_loop cfg runner fl files)))) = []"
proof (cases "dry_run cfg")
  case True
  then show ?thesis by (simp add: driver_loop_dry_run)
next
  case False
  with assms(1) have "\<forall>f \<in> set fl. eligible f \<longrightarrow>
      has_output (snd (driver_loop cfg runner fl files)) f"
    by (rule driver_loop_done)
  with assms(2) show ?thesis by (simp add: driver_loop_all_done)
qed

subsection \<open>Claims about the driver and the fetcher\<close>

text \<open>
  C5. A request file whose output file, plain or zipped, exists is passed over without
  an invocation when the replace flag is off, and is run again when the flag is on.
  Hence, when every inference subprocess leaves its output file behind and removes no
  file, a second run of the driver over the same directory with the replace flag off
  invokes nothing.
\<close>

theorem skip_on_exists:
  "((output_file (filename f) \<in> files \<or> output_file_zip (filename f) \<in> files)
      \<and> \<not> replace cfg \<longrightarrow>
      invocations (fst (driver_file cfg runner f files)) = []
      \<and> snd (driver_file cfg runner f files) = files)
   \<and> (\<not> str_contains ''gpt'' (filename f) \<and> \<not> str_contains ''claude'' (filename f)
        \<and> first_line f = Model_string m \<and> m \<noteq> [] \<and> m \<noteq> ''null''
        \<and> replace cfg \<and> \<not> dry_run cfg \<longrightarrow>
      invocations (fst (driver_file cfg runner f files)) = [build_command cfg (filename f) m])
   \<and> ((\<forall>c fs. cmd_output c \<in> runner c fs \<and> fs \<subseteq> runner c fs) \<and> \<not> replace cfg \<longrightarrow>
      invocations (fst (driver cfg runner dir (snd (driver cfg runner dir files)))) = [])"
proof (intro conjI impI)
  assume "(output_file (filename f) \<in> files \<or> output_file_zip (filename f) \<in> files)
      \<and> \<not> replace cfg"
  then have "has_output files f" and "\<not> replace cfg" by (simp_all add: has_output_def)
  then have r: "invocations (fst (driver_file cfg runner f files)) = []
      \<and> snd (driver_file cfg runner f files) = files"
    by (rule driver_file_exists)
  from r show "invocations (fst (driver_file cfg runner f files)) = []" ..
  from r show "snd (driver_file cfg runner f files) = files" ..
next
  assume "\<not> str_contains ''gpt'' (filename f) \<and> \<not> str_contains ''claude'' (filename f)
        \<and> first_line f = Model_string m \<and> m \<noteq> [] \<and> m \<noteq> ''null''
        \<and> replace cfg \<and> \<not> dry_run cfg"
  then show "invocations (fst (driver_file cfg runner f files))
      = [build_command cfg (filename f) m]"
    by (simp add: driver_file_def Let_def)
next
  assume "(\<forall>c fs. cmd_output c \<in> runner c fs \<and> fs \<subseteq> runner c fs) \<and> \<not> replace cfg"
  then show "invocations (fst (driver cfg runner dir (snd (driver cfg runner dir files)))) = []"
    unfolding driver_def by (simp add: driver_loop_twice)
qed

theorem skip_on_exists_witness:
  "(\<forall>c fs. cmd_output c \<in> writes_output c fs \<and> fs \<subseteq> writes_output c fs)
   \<and> \<not> replace default_config
   \<and> invocations (fst (driver default_config writes_output
        [\<lparr>filename = ''v2_gemma-2-2b-it.jsonl'', first_line = Model_string ''google/gemma-2-2b-it''\<rparr>]
        {}))
      = [build_command default_config ''v2_gemma-2-2b-it.jsonl'' ''google/gemma-2-2b-it'']
   \<and> invocations (fst (driver default_config writes_output
        [\<lparr>filename = ''v2_gemma-2-2b-it.jsonl'', first_line = Model_string ''google/gemma-2-2b-it''\<rparr>]
        (snd (driver default_config writes_output
          [\<lparr>filename = ''v2_gemma-2-2b-it.jsonl'', first_line = Model_string ''google/gemma-2-2b-it''\<rparr>]
          {}))))
      = []"
proof -
  have r: "\<forall>c fs. cmd_output c \<in> writes_output c fs \<and> fs \<subseteq> writes_output c fs"
    by (auto simp: writes_output_def)
  have c: "\<not> replace default_config" by (simp add: default_config_def)
  have first: "invocations (fst (driver default_config writes_output
        [\<lparr>filename = ''v2_gemma-2-2b-it.jsonl'', first_line = Model_string ''google/gemma-2-2b-it''\<rparr>]
        {}))
      = [build_command default_config ''v2_gemma-2-2b-it.jsonl'' ''google/gemma-2-2b-it'']"
    by (simp add: driver_def glob_jsonl_def driver_file_def suffix_to_prefix default_config_def
        Let_def)
  from skip_on_exists [where cfg = default_config and runner = writes_output and files = "{}"
      and dir = "[\<lparr>filename = ''v2_gemma-2-2b-it.jsonl'',
                  first_line = Model_string ''google/gemma-2-2b-it''\<rparr>]"] r c
  have "invocations (fst (driver default_config writes_output
        [\<lparr>filename = ''v2_gemma-2-2b-it.jsonl'', first_line = Model_string ''google/gemma-2-2b-it''\<rparr>]
        (snd (driver default_config writes_output
          [\<lparr>filename = ''v2_gemma-2-2b-it.jsonl'', first_line = Model_string ''google/gemma-2-2b-it''\<rparr>]
          {}))))
      = []"
    by blast
  with r c first show ?thesis by blast
qed

text \<open>
  C7 (amended). A request file that the name filter lets through (no \<open>gpt\<close>, no
  \<open>claude\<close> in its name) and whose first record has no model, or a null one, produces
  exactly one warning, leaves the files untouched, invokes nothing, and the loop goes
  on with the remaining files.
\<close>

theorem missing_model_warned_and_skipped:
  "\<not> str_contains ''gpt'' (filename f) \<and> \<not> str_contains ''claude'' (filename f)
     \<and> first_line f = Model_null \<longrightarrow>
   driver_file cfg runner f files = ([Warn_no_model (input_dir @ ''/'' @ filename f)], files)
   \<and> driver_loop cfg runner (f # rest) files =
       (Warn_no_model (input_dir @ ''/'' @ filename f) # fst (driver_loop cfg runner rest files),
        snd (driver_loop cfg runner rest files))
   \<and> invocations (fst (driver_loop cfg runner (f # rest) files))
       = invocations (fst (driver_loop cfg runner rest files))"
  by (simp add: driver_file_def split_beta)

theorem missing_model_warned_and_skipped_witness:
  "\<not> str_contains ''gpt'' ''v2_gemma-2-2b-it.jsonl''
   \<and> \<not> str_contains ''claude'' ''v2_gemma-2-2b-it.jsonl''
   \<and> driver_loop default_config writes_output
       [\<lparr>filename = ''v2_gemma-2-2b-it.jsonl'', first_line = Model_null\<rparr>,
        \<lparr>filename = ''v2_Phi-3-mini-4k-instruct.jsonl'',
         first_line = Model_string ''microsoft/Phi-3-mini-4k-instruct''\<rparr>] {}
     = (Warn_no_model ''input_data/batch_requests/v2_gemma-2-2b-it.jsonl''
          # fst (driver_loop default_config writes_output
              [\<lparr>filename = ''v2_Phi-3-mini-4k-instruct.jsonl'',
                first_line = Model_string ''microsoft/Phi-3-mini-4k-instruct''\<rparr>] {}),
        snd (driver_loop default_config writes_output
              [\<lparr>filename = ''v2_Phi-3-mini-4k-instruct.jsonl'',
                first_line = Model_string ''microsoft/Phi-3-mini-4k-instruct''\<rparr>] {}))"
proof -
  let ?f = "\<lparr>filename = ''v2_gemma-2-2b-it.jsonl'', first_line = Model_null\<rparr>"
  let ?rest = "[\<lparr>filename = ''v2_Phi-3-mini-4k-instruct.jsonl'',
           first_line = Model_string ''microsoft/Phi-3-mini-4k-instruct''\<rparr>]"
  have a: "\<not> str_contains ''gpt'' ''v2_gemma-2-2b-it.jsonl''" by simp
  have b: "\<not> str_contains ''claude'' ''v2_gemma-2-2b-it.jsonl''" by simp
  have h: "\<not> str_contains ''gpt'' (filename ?f) \<and> \<not> str_contains ''claude'' (filename ?f)
     \<and> first_line ?f = Model_null" by simp
  have p: "input_dir @ ''/'' @ filename ?f = ''input_data/batch_requests/v2_gemma-2-2b-it.jsonl''"
    by (simp add: input_dir_def)
  from missing_model_warned_and_skipped [of ?f default_config writes_output "{}" ?rest] h
  have "driver_loop default_config writes_output (?f # ?rest) {} =
       (Warn_no_model (input_dir @ ''/'' @ filename ?f)
          # fst (driver_loop default_config writes_output ?rest {}),
        snd (driver_loop default_config writes_output ?rest {}))"
    by blast
  then have e: "driver_loop default_config writes_output (?f # ?rest) {} =
       (Warn_no_model ''input_data/batch_requests/v2_gemma-2-2b-it.jsonl''
          # fst (driver_loop default_config writes_output ?rest {}),
        snd (driver_loop default_config writes_output ?rest {}))"
    unfolding p .
  from a b e show ?thesis by blast
qed

text \<open>
  C7, as stated, fails for a file that the name filter excludes: the loop has moved on
  before the model is read, and no warning is logged.
\<close>

theorem missing_model_no_warning_counterexample:
  "driver_file default_config writes_output
     \<lparr>filename = ''housing_prompt_v2_gpt-4o-2024-08-06.jsonl'', first_line = Model_null\<rparr> {}
   = ([], {})"
  by (simp add: driver_file_def)

text \<open>
  C4. The fetcher passes over a file only when its name starts with \<open>gpt\<close>. For the
  request files the generator writes for hosted-API models, which carry the run prefix
  in front of the model name, it issues a download, while the driver skips them.
\<close>

theorem fetcher_downloads_hosted_api_models:
  "downloads (fetcher
     [\<lparr>filename = ''housing_prompt_v2_gpt-4o-2024-08-06.jsonl'',
       first_line = Model_string ''gpt-4o-2024-08-06''\<rparr>,
      \<lparr>filename = ''housing_prompt_v2_claude-3-haiku-20240307.jsonl'',
       first_line = Model_string ''claude-3-haiku-20240307''\<rparr>])
   = [''gpt-4o-2024-08-06'', ''claude-3-haiku-20240307'']
   \<and> driver default_config writes_output
     [\<lparr>filename = ''housing_prompt_v2_gpt-4o-2024-08-06.jsonl'',
       first_line = Model_string ''gpt-4o-2024-08-06''\<rparr>,
      \<lparr>filename = ''housing_prompt_v2_claude-3-haiku-20240307.jsonl'',
       first_line = Model_string ''claude-3-haiku-20240307''\<rparr>] {}
   = ([], {})"
  by (simp add: fetcher_def fetcher_file_def driver_def driver_file_def glob_jsonl_def
      suffix_to_prefix Let_def)

section \<open>Properties of the prompt generator\<close>

subsection \<open>Counting the rows of the product\<close>

lemma length_filter_concat:
  "length (filter P (concat xss)) = sum_list (map (\<lambda>xs. length (filter P xs)) xss)"
  by (induction xss) simp_all

lemma count_replicates:
  "length (filter (\<lambda>p. P (fst p) \<and> Q (fst (snd p)) \<and> R (snd (snd p))) (map (\<lambda>x. (a, j, s)) [0..<3]))
     = (if P a \<and> Q j \<and> R s then 3 else 0)"
  by (simp add: upt_rec)

lemma count_statuses:
  "length (filter (\<lambda>p. P (fst p) \<and> Q (fst (snd p)) \<and> R (snd (snd p)))
       (concat (map (\<lambda>s. map (\<lambda>x. (a, j, s)) [0..<3]) ss)))
     = (if P a \<and> Q j then length (filter R ss) * 3 else 0)"
  by (induction ss) (simp_all add: count_replicates del: upt_Suc)

lemma count_jobs:
  "length (filter (\<lambda>p. P (fst p) \<and> Q (fst (snd p)) \<and> R (snd (snd p)))
       (concat (map (\<lambda>j. concat (map (\<lambda>s. map (\<lambda>x. (a, j, s)) [0..<3]) ss)) os)))
     = (if P a then length (filter Q os) * (length (filter R ss) * 3) else 0)"
  by (induction os) (simp_all add: count_statuses del: upt_Suc)

lemma count_product:
  "length (filter (\<lambda>p. P (fst p) \<and> Q (fst (snd p)) \<and> R (snd (snd p)))
       (concat (map (\<lambda>a. concat (map (\<lambda>j. concat (map (\<lambda>s. map (\<lambda>x. (a, j, s)) [0..<3]) ss))
          os)) ns)))
     = length (filter P ns) * (length (filter Q os) * (length (filter R ss) * 3))"
  by (induction ns) (simp_all add: count_jobs del: upt_Suc)

lemma combinations_count:
  "length (filter (\<lambda>p. P (fst p) \<and> Q (fst (snd p)) \<and> R (snd (snd p))) (combinations ns))
     = length (filter P ns)
         * (length (filter Q occupation) * (length (filter R living_status) * 3))"
  unfolding combinations_def by (rule count_product)

lemma length_filter_enumerate:
  "length (filter (\<lambda>p. P (snd p)) (enumerate n xs)) = length (filter P xs)"
  by (induction xs arbitrary: n) simp_all

lemma row_list_count:
  "length (filter (\<lambda>r. P (gender r, race r) \<and> Q (row_occupation r) \<and> R (row_living_status r))
       (row_list ns))
     = length (filter (\<lambda>a. P (Gender a, Race a)) ns)
         * (length (filter Q occupation) * (length (filter R living_status) * 3))"
proof -
  have "length (filter (\<lambda>r. P (gender r, race r) \<and> Q (row_occupation r) \<and> R (row_living_status r))
       (row_list ns))
     = length (filter (\<lambda>p. (\<lambda>q. P (Gender (fst q), Race (fst q)) \<and> Q (fst (snd q)) \<and> R (snd (snd q))) (snd p))
         (enumerate 0 (combinations ns)))"
    unfolding row_list_def filter_map length_map
    by (rule arg_cong [where f = length], rule filter_cong) (auto simp: make_row_def)
  also have "\<dots> = length (filter (\<lambda>q. P (Gender (fst q), Race (fst q)) \<and> Q (fst (snd q)) \<and> R (snd (snd q)))
      (combinations ns))"
    by (rule length_filter_enumerate)
  also have "\<dots> = length (filter (\<lambda>a. P (Gender a, Race a)) ns)
         * (length (filter Q occupation) * (length (filter R living_status) * 3))"
    by (rule combinations_count [of "\<lambda>a. P (Gender a, Race a)"])
  finally show ?thesis .
qed

lemma length_occupation: "length occupation = 11"
  by (simp add: occupation_def)

lemma length_living_status: "length living_status = 6"
  by (simp add: living_status_def)

lemma distinct_occupation: "distinct occupation"
  by (simp add: occupation_def)

lemma distinct_living_status: "distinct living_status"
  by (simp add: living_status_def)

lemma count_distinct: "distinct xs \<Longrightarrow> length (filter (\<lambda>x. x = k) xs) = (if k \<in> set xs then 1 else 0)"
  by (induction xs) auto

lemma length_row_list: "length (row_list ns) = 198 * length ns"
  using row_list_count [of "\<lambda>p. True" "\<lambda>j. True" "\<lambda>s. True" ns]
  by (simp add: length_occupation length_living_status)

lemma count_gender_race:
  "group_count key_gender_race (g, r) (row_list ns)
     = 198 * length (filter (\<lambda>a. Gender a = g \<and> Race a = r) ns)"
  using row_list_count [of "\<lambda>p. p = (g, r)" "\<lambda>j. True" "\<lambda>s. True" ns]
  by (simp add: group_count_def key_gender_race_def length_occupation length_living_status)

lemma count_race_occupation:
  "group_count key_race_occupation (r, j) (row_list ns)
     = (if j \<in> set occupation then 18 * length (filter (\<lambda>a. Race a = r) ns) else 0)"
  using row_list_count [of "\<lambda>p. snd p = r" "\<lambda>x. x = j" "\<lambda>s. True" ns]
  by (simp add: group_count_def key_race_occupation_def length_living_status
      count_distinct [OF distinct_occupation] conj_commute)

lemma count_occupation_status:
  "group_count key_occupation_status (j, s) (row_list ns)
     = (if j \<in> set occupation \<and> s \<in> set living_status then 3 * length ns else 0)"
  using row_list_count [of "\<lambda>p. True" "\<lambda>x. x = j" "\<lambda>x. x = s" ns]
  by (simp add: group_count_def key_occupation_status_def
      count_distinct [OF distinct_occupation] count_distinct [OF distinct_living_status])

lemma count_all:
  "group_count key_all (g, r, j, s) (row_list ns)
     = (if j \<in> set occupation \<and> s \<in> set living_status
        then 3 * length (filter (\<lambda>a. Gender a = g \<and> Race a = r) ns) else 0)"
  using row_list_count [of "\<lambda>p. p = (g, r)" "\<lambda>x. x = j" "\<lambda>x. x = s" ns]
  by (simp add: group_count_def key_all_def conj_assoc
      count_distinct [OF distinct_occupation] count_distinct [OF distinct_living_status])

subsection \<open>The assertions on group counts\<close>

lemma nunique_one_iff: "nunique xs = 1 \<longleftrightarrow> (\<exists>c. set xs = {c})"
  by (simp add: nunique_def length_remdups_card_conv card_1_singleton_iff)

lemma set_group_counts:
  "set (group_counts key df) = (\<lambda>r. group_count key (key r) df) ` set df"
  by (auto simp: group_counts_def)

lemma nunique_uniform:
  assumes "nunique (group_counts key df) = 1" and "r1 \<in> set df" and "r2 \<in> set df"
  shows "group_count key (key r1) df = group_count key (key r2) df"
proof -
  from assms(1) [unfolded nunique_one_iff] obtain c where c: "set (group_counts key df) = {c}"
    by blast
  have "group_count key (key r1) df \<in> set (group_counts key df)"
    and "group_count key (key r2) df \<in> set (group_counts key df)"
    using assms(2,3) by (simp_all add: set_group_counts)
  with c show ?thesis by simp
qed

lemma uniform_nunique:
  assumes "df \<noteq> []" and "\<forall>r \<in> set df. group_count key (key r) df = c"
  shows "nunique (group_counts key df) = 1"
proof -
  from assms(1) obtain r where "r \<in> set df" by (cases df) auto
  with assms(2) have "set (group_counts key df) = {c}"
    by (auto simp: set_group_counts)
  then show ?thesis unfolding nunique_one_iff by blast
qed

lemma check_counts_Inr_iff:
  "check_counts df = Inr () \<longleftrightarrow>
     df \<noteq> [] \<and> nunique (group_counts key_all df) = 1
     \<and> nunique (group_counts key_gender_race df) = 1
     \<and> nunique (group_counts key_race_occupation df) = 1
     \<and> nunique (group_counts key_occupation_status df) = 1"
  by (simp add: check_counts_def)

lemma check_counts_Inl:
  "check_counts df = Inl e \<Longrightarrow> e = KeyError \<or> e = AssertionError"
  by (auto simp: check_counts_def split: if_splits)

lemma set_combinations:
  "set (combinations ns) = set ns \<times> set occupation \<times> set living_status"
  by (auto simp: combinations_def image_constant_conv)

lemma set_row_list:
  "r \<in> set (row_list ns) \<Longrightarrow>
     \<exists>a \<in> set ns. gender r = Gender a \<and> race r = Race a
        \<and> row_occupation r \<in> set occupation \<and> row_living_status r \<in> set living_status"
proof -
  assume "r \<in> set (row_list ns)"
  then obtain p where p: "p \<in> set (enumerate 0 (combinations ns))" and r: "r = make_row p"
    by (auto simp: row_list_def)
  obtain i a j s where q: "p = (i, a, j, s)" by (cases p) auto
  from p q have "i < length (combinations ns) \<and> combinations ns ! i = (a, j, s)"
    by (simp add: in_set_enumerate_eq)
  then have "(a, j, s) \<in> set (combinations ns)"
    by (metis nth_mem)
  then have "a \<in> set ns" "j \<in> set occupation" "s \<in> set living_status"
    by (simp_all add: set_combinations)
  then show ?thesis using r q by (auto simp: make_row_def)
qed

lemma check_counts_balanced:
  assumes "ns \<noteq> []"
    and "\<forall>a \<in> set ns. length (filter (\<lambda>b. Gender b = Gender a \<and> Race b = Race a) ns) = c1"
    and "\<forall>a \<in> set ns. length (filter (\<lambda>b. Race b = Race a) ns) = c2"
  shows "check_counts (row_list ns) = Inr ()"
proof -
  let ?df = "row_list ns"
  have ne: "?df \<noteq> []" using assms(1) length_row_list [of ns] by (cases ns) auto
  have "\<forall>r \<in> set ?df. group_count key_all (key_all r) ?df = 3 * c1"
  proof
    fix r assume "r \<in> set ?df"
    from set_row_list [OF this] assms(2) show "group_count key_all (key_all r) ?df = 3 * c1"
      by (auto simp: key_all_def count_all)
  qed
  with ne have 1: "nunique (group_counts key_all ?df) = 1" by (rule uniform_nunique)
  have "\<forall>r \<in> set ?df. group_count key_gender_race (key_gender_race r) ?df = 198 * c1"
  proof
    fix r assume "r \<in> set ?df"
    from set_row_list [OF this] assms(2)
    show "group_count key_gender_race (key_gender_race r) ?df = 198 * c1"
      by (auto simp: key_gender_race_def count_gender_race)
  qed
  with ne have 2: "nunique (group_counts key_gender_race ?df) = 1" by (rule uniform_nunique)
  have "\<forall>r \<in> set ?df. group_count key_race_occupation (key_race_occupation r) ?df = 18 * c2"
  proof
    fix r assume "r \<in> set ?df"
    from set_row_list [OF this] assms(3)
    show "group_count key_race_occupation (key_race_occupation r) ?df = 18 * c2"
      by (auto simp: key_race_occupation_def count_race_occupation)
  qed
  with ne have 3: "nunique (group_counts key_race_occupation ?df) = 1" by (rule uniform_nunique)
  have "\<forall>r \<in> set ?df. group_count key_occupation_status (key_occupation_status r) ?df
      = 3 * length ns"
  proof
    fix r assume "r \<in> set ?df"
    from set_row_list [OF this]
    show "group_count key_occupation_status (key_occupation_status r) ?df = 3 * length ns"
      by (auto simp: key_occupation_status_def count_occupation_status)
  qed
  with ne have 4: "nunique (group_counts key_occupation_status ?df) = 1"
    by (rule uniform_nunique)
  from ne 1 2 3 4 show ?thesis by (simp add: check_counts_Inr_iff)
qed

subsection \<open>The request files\<close>

lemma fold_update_dom:
  "dom (fold (\<lambda>v files. files(f v \<mapsto> h v)) vs m) = dom m \<union> f ` set vs"
  by (induction vs arbitrary: m) auto

lemma fold_update_Some:
  "fold (\<lambda>v files. files(f v \<mapsto> h v)) vs m path = Some l \<Longrightarrow>
     m path = Some l \<or> (\<exists>v \<in> set vs. l = h v)"
proof (induction vs arbitrary: m)
  case Nil
  then show ?case by simp
next
  case (Cons v vs)
  from Cons.prems
  have "fold (\<lambda>v files. files(f v \<mapsto> h v)) vs (m(f v \<mapsto> h v)) path = Some l"
    by (simp only: fold_simps comp_apply)
  from Cons.IH [OF this] show ?case
    by (auto split: if_splits)
qed

lemma dom_write_requests:
  "dom (write_requests p g df vs) = request_path p ` set vs"
proof -
  have "dom (write_requests p g df vs) = dom (Map.empty :: string \<rightharpoonup> string list)
      \<union> request_path p ` set vs"
    unfolding write_requests_def by (rule fold_update_dom)
  then show ?thesis by simp
qed

lemma length_write_requests:
  assumes "write_requests p g df vs path = Some l"
  shows "length l = length df"
proof -
  from assms have "Map.empty path = Some l
      \<or> (\<exists>v \<in> set vs. l = map (\<lambda>row. dumps (make_task g v row)) df)"
    unfolding write_requests_def by (rule fold_update_Some)
  then show ?thesis by auto
qed

lemma request_path_inj: "request_path p a = request_path p b \<Longrightarrow> last_segment a = last_segment b"
  by (simp add: request_path_def)

lemma distinct_model_files: "distinct (map last_segment models)"
  by (simp add: models_def last_segment_def)

lemma distinct_request_paths: "distinct (map (request_path p) models)"
proof -
  have d: "distinct models" and inj: "inj_on last_segment (set models)"
    using distinct_model_files by (simp_all add: distinct_map)
  have "inj_on (request_path p) (set models)"
  proof (rule inj_onI)
    fix a b assume a: "a \<in> set models" and b: "b \<in> set models"
      and e: "request_path p a = request_path p b"
    from e have "last_segment a = last_segment b" by (rule request_path_inj)
    with inj show "a = b" using a b by (rule inj_onD)
  qed
  with d show ?thesis by (simp add: distinct_map)
qed

lemma card_request_files: "card (dom (write_requests p g df models)) = 7"
proof -
  have "card (dom (write_requests p g df models)) = card (set (map (request_path p) models))"
    by (simp add: dom_write_requests)
  also have "\<dots> = length (map (request_path p) models)"
    using distinct_request_paths by (rule distinct_card)
  also have "\<dots> = 7" by (simp add: models_def)
  finally show ?thesis .
qed

subsection \<open>Claims about the generator\<close>

lemma row_list_has_row:
  assumes "a \<in> set ns" and "j \<in> set occupation" and "s \<in> set living_status"
  shows "\<exists>r \<in> set (row_list ns). gender r = Gender a \<and> race r = Race a
           \<and> row_occupation r = j \<and> row_living_status r = s"
proof -
  from assms have "(a, j, s) \<in> set (combinations ns)" by (simp add: set_combinations)
  then obtain i where "i < length (combinations ns)" and "combinations ns ! i = (a, j, s)"
    by (auto simp: in_set_conv_nth)
  then have "(i, a, j, s) \<in> set (enumerate 0 (combinations ns))"
    by (simp add: in_set_enumerate_eq)
  then have "make_row (i, a, j, s) \<in> set (row_list ns)"
    unfolding row_list_def by (simp only: set_map) (rule imageI)
  then show ?thesis by (rule bexI [rotated]) (simp add: make_row_def)
qed

lemma generator_Inr:
  "generator p g ns = Inr (df, files) \<longleftrightarrow>
     check_counts (row_list ns) = Inr () \<and> df = row_list ns
     \<and> files = write_requests p g (row_list ns) models"
  by (auto simp: generator_def Let_def split: sum.splits)

lemma generator_Inl:
  "generator p g ns = Inl e \<longleftrightarrow> check_counts (row_list ns) = Inl e"
  by (auto simp: generator_def Let_def split: sum.splits)

lemma count_race_status:
  "group_count key_race_status (r, s) (row_list ns)
     = (if s \<in> set living_status then 33 * length (filter (\<lambda>a. Race a = r) ns) else 0)"
  using row_list_count [of "\<lambda>p. snd p = r" "\<lambda>j. True" "\<lambda>x. x = s" ns]
  by (simp add: group_count_def key_race_status_def length_occupation
      count_distinct [OF distinct_living_status] conj_commute)

lemma count_gender_occupation:
  "group_count key_gender_occupation (g, j) (row_list ns)
     = (if j \<in> set occupation then 18 * length (filter (\<lambda>a. Gender a = g) ns) else 0)"
  using row_list_count [of "\<lambda>p. fst p = g" "\<lambda>x. x = j" "\<lambda>s. True" ns]
  by (simp add: group_count_def key_gender_occupation_def length_living_status
      count_distinct [OF distinct_occupation] conj_commute)

lemma count_gender_status:
  "group_count key_gender_status (g, s) (row_list ns)
     = (if s \<in> set living_status then 33 * length (filter (\<lambda>a. Gender a = g) ns) else 0)"
  using row_list_count [of "\<lambda>p. fst p = g" "\<lambda>j. True" "\<lambda>x. x = s" ns]
  by (simp add: group_count_def key_gender_status_def length_occupation
      count_distinct [OF distinct_living_status] conj_commute)

text \<open>
  The assertion on race by occupation fixes the number of applicants of every race
  that occurs, and with it the counts for race by living status.
\<close>

lemma race_status_uniform:
  assumes u: "nunique (group_counts key_race_occupation (row_list ns)) = 1"
    and r1: "r1 \<in> set (row_list ns)" and r2: "r2 \<in> set (row_list ns)"
  shows "group_count key_race_status (key_race_status r1) (row_list ns)
       = group_count key_race_status (key_race_status r2) (row_list ns)"
proof -
  from set_row_list [OF r1] have m1: "row_occupation r1 \<in> set occupation"
    "row_living_status r1 \<in> set living_status" by blast+
  from set_row_list [OF r2] have m2: "row_occupation r2 \<in> set occupation"
    "row_living_status r2 \<in> set living_status" by blast+
  from nunique_uniform [OF u r1 r2]
  have "18 * length (filter (\<lambda>a. Race a = race r1) ns)
      = 18 * length (filter (\<lambda>a. Race a = race r2) ns)"
    using m1(1) m2(1) by (simp add: key_race_occupation_def count_race_occupation)
  then have "length (filter (\<lambda>a. Race a = race r1) ns)
      = length (filter (\<lambda>a. Race a = race r2) ns)" by simp
  then show ?thesis using m1(2) m2(2) by (simp add: key_race_status_def count_race_status)
qed

lemma balanced_names_pass: "check_counts (row_list balanced_names) = Inr ()"
  by (rule check_counts_balanced [where ?c1.0 = 1 and ?c2.0 = 2])
     (simp_all add: balanced_names_def)

lemma unbalanced_names_pass: "check_counts (row_list unbalanced_names) = Inr ()"
  by (rule check_counts_balanced [where ?c1.0 = 2 and ?c2.0 = 2])
     (simp_all add: unbalanced_names_def)

lemma skewed_names_fail:
  "nunique (group_counts key_gender_race (row_list skewed_names)) \<noteq> 1"
proof
  let ?df = "row_list skewed_names"
  assume u: "nunique (group_counts key_gender_race ?df) = 1"
  have "\<lparr>Full_Name = ''Adam Smith'', Gender = ''Man'', Race = ''White''\<rparr> \<in> set skewed_names"
    and "\<lparr>Full_Name = ''Jamal Brown'', Gender = ''Man'', Race = ''Black''\<rparr> \<in> set skewed_names"
    and "''doctor'' \<in> set occupation" and "''just myself'' \<in> set living_status"
    by (simp_all add: skewed_names_def occupation_def living_status_def)
  from row_list_has_row [OF this(1) this(3) this(4)] row_list_has_row [OF this(2) this(3) this(4)]
  obtain r1 r2 where r1: "r1 \<in> set ?df" "key_gender_race r1 = (''Man'', ''White'')"
    and r2: "r2 \<in> set ?df" "key_gender_race r2 = (''Man'', ''Black'')"
    by (auto simp: key_gender_race_def)
  from nunique_uniform [OF u r1(1) r2(1)]
  have "group_count key_gender_race (''Man'', ''White'') ?df
      = group_count key_gender_race (''Man'', ''Black'') ?df"
    unfolding r1(2) r2(2) .
  then show False by (simp add: count_gender_race skewed_names_def)
qed

text \<open>
  C3 (amended). When the generator gets as far as writing files, the task counts are
  the same for all value combinations that occur, for the grouping by all four factors
  and for four of the six pairs: gender by race, race by occupation and occupation by
  living status, which are asserted, and race by living status, which the assertion on
  race by occupation forces. The four assertions stand before the request files are
  written: when one of them fails, or the table is empty, the generator returns the
  error and writes nothing.
\<close>

theorem group_counts_validated:
  "(generator p g ns = Inr (df, files) \<longrightarrow>
      df = row_list ns \<and>
      (\<forall>r1 \<in> set df. \<forall>r2 \<in> set df.
         group_count key_all (key_all r1) df = group_count key_all (key_all r2) df
         \<and> group_count key_gender_race (key_gender_race r1) df
             = group_count key_gender_race (key_gender_race r2) df
         \<and> group_count key_race_occupation (key_race_occupation r1) df
             = group_count key_race_occupation (key_race_occupation r2) df
         \<and> group_count key_occupation_status (key_occupation_status r1) df
             = group_count key_occupation_status (key_occupation_status r2) df
         \<and> group_count key_race_status (key_race_status r1) df
             = group_count key_race_status (key_race_status r2) df))
   \<and> (ns \<noteq> [] \<and>
        (nunique (group_counts key_all (row_list ns)) \<noteq> 1
         \<or> nunique (group_counts key_gender_race (row_list ns)) \<noteq> 1
         \<or> nunique (group_counts key_race_occupation (row_list ns)) \<noteq> 1
         \<or> nunique (group_counts key_occupation_status (row_list ns)) \<noteq> 1) \<longrightarrow>
      generator p g ns = Inl AssertionError)
   \<and> (ns = [] \<longrightarrow> generator p g ns = Inl KeyError)"
proof (intro conjI impI)
  assume a: "generator p g ns = Inr (df, files)"
  then show d: "df = row_list ns" by (simp add: generator_Inr)
  from a have c: "check_counts df = Inr ()" by (simp add: generator_Inr)
  show "\<forall>r1 \<in> set df. \<forall>r2 \<in> set df.
         group_count key_all (key_all r1) df = group_count key_all (key_all r2) df
         \<and> group_count key_gender_race (key_gender_race r1) df
             = group_count key_gender_race (key_gender_race r2) df
         \<and> group_count key_race_occupation (key_race_occupation r1) df
             = group_count key_race_occupation (key_race_occupation r2) df
         \<and> group_count key_occupation_status (key_occupation_status r1) df
             = group_count key_occupation_status (key_occupation_status r2) df
         \<and> group_count key_race_status (key_race_status r1) df
             = group_count key_race_status (key_race_status r2) df"
  proof (intro ballI conjI)
    fix r1 r2 assume r: "r1 \<in> set df" "r2 \<in> set df"
    from c have u: "nunique (group_counts key_all df) = 1"
      "nunique (group_counts key_gender_race df) = 1"
      "nunique (group_counts key_race_occupation df) = 1"
      "nunique (group_counts key_occupation_status df) = 1"
      unfolding check_counts_Inr_iff by blast+
    show "group_count key_all (key_all r1) df = group_count key_all (key_all r2) df"
      using u(1) r by (rule nunique_uniform)
    show "group_count key_gender_race (key_gender_race r1) df
        = group_count key_gender_race (key_gender_race r2) df"
      using u(2) r by (rule nunique_uniform)
    show "group_count key_race_occupation (key_race_occupation r1) df
        = group_count key_race_occupation (key_race_occupation r2) df"
      using u(3) r by (rule nunique_uniform)
    show "group_count key_occupation_status (key_occupation_status r1) df
        = group_count key_occupation_status (key_occupation_status r2) df"
      using u(4) r by (rule nunique_uniform)
    show "group_count key_race_status (key_race_status r1) df
        = group_count key_race_status (key_race_status r2) df"
      using u(3) r unfolding d by (rule race_status_uniform)
  qed
next
  assume a: "ns \<noteq> [] \<and>
        (nunique (group_counts key_all (row_list ns)) \<noteq> 1
         \<or> nunique (group_counts key_gender_race (row_list ns)) \<noteq> 1
         \<or> nunique (group_counts key_race_occupation (row_list ns)) \<noteq> 1
         \<or> nunique (group_counts key_occupation_status (row_list ns)) \<noteq> 1)"
  then have "row_list ns \<noteq> []" using length_row_list [of ns] by (cases ns) auto
  with a have "check_counts (row_list ns) = Inl AssertionError"
    by (auto simp: check_counts_def)
  then show "generator p g ns = Inl AssertionError" by (simp add: generator_Inl)
next
  assume "ns = []"
  then have "row_list ns = []" using length_row_list [of ns] by simp
  then have "check_counts (row_list ns) = Inl KeyError" by (simp add: check_counts_def)
  then show "generator p g ns = Inl KeyError" by (simp add: generator_Inl)
qed

theorem group_counts_validated_witness:
  "generator ''housing_prompt_v2'' example_prompt unbalanced_names
     = Inr (row_list unbalanced_names,
            write_requests ''housing_prompt_v2'' example_prompt (row_list unbalanced_names)
              models)
   \<and> group_count key_gender_race (''Man'', ''White'') (row_list unbalanced_names)
     = group_count key_gender_race (''Woman'', ''Hispanic'') (row_list unbalanced_names)
   \<and> group_count key_gender_race (''Man'', ''White'') (row_list unbalanced_names) = 396
   \<and> group_count key_race_status (''White'', ''just myself'') (row_list unbalanced_names)
     = group_count key_race_status (''Hispanic'', ''my pet and I'') (row_list unbalanced_names)
   \<and> group_count key_race_status (''White'', ''just myself'') (row_list unbalanced_names) = 66
   \<and> generator ''housing_prompt_v2'' example_prompt skewed_names = Inl AssertionError
   \<and> generator ''housing_prompt_v2'' example_prompt [] = Inl KeyError"
proof -
  let ?df = "row_list unbalanced_names"
  let ?files = "write_requests ''housing_prompt_v2'' example_prompt ?df models"
  have g: "generator ''housing_prompt_v2'' example_prompt unbalanced_names = Inr (?df, ?files)"
    using unbalanced_names_pass by (simp add: generator_Inr)
  have "\<lparr>Full_Name = ''Adam Smith'', Gender = ''Man'', Race = ''White''\<rparr>
        \<in> set unbalanced_names"
    and "\<lparr>Full_Name = ''Maria Garcia'', Gender = ''Woman'', Race = ''Hispanic''\<rparr>
        \<in> set unbalanced_names"
    and "''doctor'' \<in> set occupation" and "''just myself'' \<in> set living_status"
    and "''my pet and I'' \<in> set living_status"
    by (simp_all add: unbalanced_names_def occupation_def living_status_def)
  from row_list_has_row [OF this(1) this(3) this(4)] row_list_has_row [OF this(2) this(3) this(5)]
  obtain r1 r2 where r1: "r1 \<in> set ?df" "key_gender_race r1 = (''Man'', ''White'')"
      "key_race_status r1 = (''White'', ''just myself'')"
    and r2: "r2 \<in> set ?df" "key_gender_race r2 = (''Woman'', ''Hispanic'')"
      "key_race_status r2 = (''Hispanic'', ''my pet and I'')"
    by (auto simp: key_gender_race_def key_race_status_def)
  from group_counts_validated
    [of "''housing_prompt_v2''" example_prompt unbalanced_names ?df ?files] g r1(1) r2(1)
  have "group_count key_gender_race (key_gender_race r1) ?df
      = group_count key_gender_race (key_gender_race r2) ?df"
    and "group_count key_race_status (key_race_status r1) ?df
      = group_count key_race_status (key_race_status r2) ?df"
    by blast+
  then have e: "group_count key_gender_race (''Man'', ''White'') ?df
      = group_count key_gender_race (''Woman'', ''Hispanic'') ?df"
    and f: "group_count key_race_status (''White'', ''just myself'') ?df
      = group_count key_race_status (''Hispanic'', ''my pet and I'') ?df"
    unfolding r1(2,3) r2(2,3) .
  have "group_count key_gender_race (''Man'', ''White'') ?df = 396"
    by (simp add: count_gender_race unbalanced_names_def)
  moreover have "group_count key_race_status (''White'', ''just myself'') ?df = 66"
    by (simp add: count_race_status unbalanced_names_def living_status_def)
  moreover have "skewed_names \<noteq> []" by (simp add: skewed_names_def)
  with group_counts_validated
    [of "''housing_prompt_v2''" example_prompt skewed_names "[]" Map.empty] skewed_names_fail
  have "generator ''housing_prompt_v2'' example_prompt skewed_names = Inl AssertionError"
    by blast
  moreover from group_counts_validated
    [of "''housing_prompt_v2''" example_prompt "[]" "[]" Map.empty]
  have "generator ''housing_prompt_v2'' example_prompt [] = Inl KeyError"
    by blast
  ultimately show ?thesis using g e f by blast
qed

text \<open>
  C3, as stated, fails for the two pairs that are neither asserted nor forced: with two
  White men, two Black men and two Hispanic women all four assertions pass, and the
  counts are 72 for the men and 36 for the women for gender by occupation, and 132 and
  66 for gender by living status.
\<close>

theorem gender_occupation_counterexample:
  "check_counts (row_list unbalanced_names) = Inr ()
   \<and> group_count key_gender_occupation (''Man'', ''doctor'') (row_list unbalanced_names) = 72
   \<and> group_count key_gender_occupation (''Woman'', ''doctor'') (row_list unbalanced_names) = 36
   \<and> group_count key_gender_status (''Man'', ''just myself'') (row_list unbalanced_names) = 132
   \<and> group_count key_gender_status (''Woman'', ''just myself'') (row_list unbalanced_names) = 66"
proof (intro conjI)
  show "check_counts (row_list unbalanced_names) = Inr ()" by (rule unbalanced_names_pass)
  show "group_count key_gender_occupation (''Man'', ''doctor'') (row_list unbalanced_names) = 72"
    by (simp add: count_gender_occupation unbalanced_names_def occupation_def)
  show "group_count key_gender_occupation (''Woman'', ''doctor'') (row_list unbalanced_names) = 36"
    by (simp add: count_gender_occupation unbalanced_names_def occupation_def)
  show "group_count key_gender_status (''Man'', ''just myself'') (row_list unbalanced_names) = 132"
    by (simp add: count_gender_status unbalanced_names_def living_status_def)
  show "group_count key_gender_status (''Woman'', ''just myself'') (row_list unbalanced_names) = 66"
    by (simp add: count_gender_status unbalanced_names_def living_status_def)
qed

lemma write_requests_length_at:
  assumes "v \<in> set vs"
  shows "map_option length (write_requests p g df vs (request_path p v)) = Some (length df)"
proof -
  from assms have "request_path p v \<in> dom (write_requests p g df vs)"
    by (simp add: dom_write_requests)
  then obtain l where l: "write_requests p g df vs (request_path p v) = Some l" by blast
  then have "length l = length df" by (rule length_write_requests)
  with l show ?thesis by simp
qed

lemma gemma_path:
  "request_path ''housing_prompt_v2'' ''google/gemma-2-2b-it''
     = ''input_data/batch_requests/housing_prompt_v2_gemma-2-2b-it.jsonl''"
  by (simp add: request_path_def last_segment_def)

lemma length_filter_concat_replicate:
  "length (filter P (concat (replicate n xs))) = n * length (filter P xs)"
  by (induction n) simp_all

lemma many_names_pass: "check_counts (row_list many_names) = Inr ()"
proof (rule check_counts_balanced [where ?c1.0 = 254 and ?c2.0 = 254])
  show "many_names \<noteq> []" by (simp add: many_names_def)
  have s: "set many_names =
      {\<lparr>Full_Name = ''Alex Smith'', Gender = ''Man'', Race = ''White''\<rparr>,
       \<lparr>Full_Name = ''Alex Jones'', Gender = ''Man'', Race = ''White''\<rparr>}"
    by (simp add: many_names_def)
  show "\<forall>a \<in> set many_names.
      length (filter (\<lambda>b. Gender b = Gender a \<and> Race b = Race a) many_names) = 254"
    unfolding s by (simp add: many_names_def length_filter_concat_replicate)
  show "\<forall>a \<in> set many_names. length (filter (\<lambda>b. Race b = Race a) many_names) = 254"
    unfolding s by (simp add: many_names_def length_filter_concat_replicate)
qed

lemma length_concat_replicate: "length (concat (replicate n xs)) = n * length xs"
  by (induction n) simp_all

lemma length_many_names: "length many_names = 254"
  unfolding many_names_def length_concat_replicate by simp

text \<open>
  C6 (amended). The generator writes exactly one request file for each of the seven
  models, and every file holds one record for every row of the seed table, that is 198
  records for each applicant. No bound is enforced: the files stay within 50000 records
  exactly when there are at most 252 applicants.
\<close>

theorem request_files_per_model:
  "generator p g ns = Inr (df, files) \<longrightarrow>
     dom files = request_path p ` set models
     \<and> card (dom files) = length models
     \<and> (\<forall>path lines. files path = Some lines \<longrightarrow> length lines = 198 * length ns)
     \<and> ((\<forall>path lines. files path = Some lines \<longrightarrow> length lines \<le> 50000)
          \<longleftrightarrow> length ns \<le> 252)"
proof
  assume "generator p g ns = Inr (df, files)"
  then have df: "df = row_list ns" and files: "files = write_requests p g df models"
    by (simp_all add: generator_Inr)
  have d: "dom files = request_path p ` set models"
    by (simp add: files dom_write_requests)
  have "length models = 7" by (simp add: models_def)
  then have c: "card (dom files) = length models"
    by (simp add: files card_request_files)
  have l: "\<forall>path lines. files path = Some lines \<longrightarrow> length lines = 198 * length ns"
    using length_write_requests [of p g df models] by (auto simp: files df length_row_list)
  have "request_path p ''gpt-4o-2024-08-06'' \<in> dom files"
    unfolding d by (rule imageI) (simp add: models_def)
  then obtain l0 where l0: "files (request_path p ''gpt-4o-2024-08-06'') = Some l0" by blast
  with l have len0: "length l0 = 198 * length ns" by blast
  have b: "(\<forall>path lines. files path = Some lines \<longrightarrow> length lines \<le> 50000)
          \<longleftrightarrow> length ns \<le> 252"
  proof
    assume "\<forall>path lines. files path = Some lines \<longrightarrow> length lines \<le> 50000"
    with l0 have "length l0 \<le> 50000" by blast
    with len0 show "length ns \<le> 252" by simp
  next
    assume "length ns \<le> 252"
    then have "198 * length ns \<le> 50000" by simp
    with l show "\<forall>path lines. files path = Some lines \<longrightarrow> length lines \<le> 50000"
      by simp
  qed
  from d c l b show "dom files = request_path p ` set models
     \<and> card (dom files) = length models
     \<and> (\<forall>path lines. files path = Some lines \<longrightarrow> length lines = 198 * length ns)
     \<and> ((\<forall>path lines. files path = Some lines \<longrightarrow> length lines \<le> 50000)
          \<longleftrightarrow> length ns \<le> 252)"
    by blast
qed

theorem request_files_per_model_witness:
  "generator ''housing_prompt_v2'' example_prompt balanced_names
     = Inr (row_list balanced_names,
            write_requests ''housing_prompt_v2'' example_prompt (row_list balanced_names) models)
   \<and> card (dom (write_requests ''housing_prompt_v2'' example_prompt
        (row_list balanced_names) models)) = 7
   \<and> map_option length
        (write_requests ''housing_prompt_v2'' example_prompt (row_list balanced_names) models
           ''input_data/batch_requests/housing_prompt_v2_gemma-2-2b-it.jsonl'')
      = Some 396"
proof -
  let ?df = "row_list balanced_names"
  let ?files = "write_requests ''housing_prompt_v2'' example_prompt ?df models"
  let ?path = "''input_data/batch_requests/housing_prompt_v2_gemma-2-2b-it.jsonl''"
  have g: "generator ''housing_prompt_v2'' example_prompt balanced_names = Inr (?df, ?files)"
    using balanced_names_pass by (simp add: generator_Inr)
  note h = request_files_per_model
    [of "''housing_prompt_v2''" example_prompt balanced_names ?df ?files]
  from h g have c: "card (dom ?files) = length models" by blast
  have m: "length models = 7" by (simp add: models_def)
  have "''google/gemma-2-2b-it'' \<in> set models" by (simp add: models_def)
  then have "?path \<in> dom ?files"
    using dom_write_requests [of "''housing_prompt_v2''" example_prompt ?df models] gemma_path
    by (metis imageI)
  then obtain l where l: "?files ?path = Some l" by blast
  with h g have "length l = 198 * length balanced_names" by blast
  then have "length l = 396" by (simp add: balanced_names_def)
  with l have "map_option length (?files ?path) = Some 396" by simp
  with g c m show ?thesis by simp
qed

text \<open>
  C6, as stated, fails: nothing caps a file at 50000 records. With 254 applicants the
  assertions pass and every request file has 50292 records.
\<close>

theorem request_file_cap_counterexample:
  "generator ''housing_prompt_v2'' example_prompt many_names
     = Inr (row_list many_names,
            write_requests ''housing_prompt_v2'' example_prompt (row_list many_names) models)
   \<and> map_option length
        (write_requests ''housing_prompt_v2'' example_prompt (row_list many_names) models
           ''input_data/batch_requests/housing_prompt_v2_gemma-2-2b-it.jsonl'')
      = Some 50292"
proof -
  have g: "generator ''housing_prompt_v2'' example_prompt many_names
     = Inr (row_list many_names,
            write_requests ''housing_prompt_v2'' example_prompt (row_list many_names) models)"
    using many_names_pass by (simp add: generator_Inr)
  have "''google/gemma-2-2b-it'' \<in> set models" by (simp add: models_def)
  from write_requests_length_at [OF this, of "''housing_prompt_v2''" example_prompt
      "row_list many_names"]
  have "map_option length
        (write_requests ''housing_prompt_v2'' example_prompt (row_list many_names) models
           ''input_data/batch_requests/housing_prompt_v2_gemma-2-2b-it.jsonl'')
      = Some (198 * 254)"
    unfolding gemma_path by (simp add: length_row_list length_many_names)
  with g show ?thesis by simp
qed

section \<open>Properties of the response merger\<close>

subsection \<open>The normalisation of a result file\<close>

text \<open>
  A record whose list of choices is null is passed over without a row, and a result
  file without records ends the run before any record is looked at.
\<close>

lemma normalize_standard_null_choices:
  "normalize_standard
     (JObject [(''custom_id'', JString ''task-0''),
               (''response'', JObject [(''body'', JObject
                  [(''model'', JString ''google/gemma-2-2b-it''), (''choices'', JNull)])])])
     = Inr []"
  by (simp add: normalize_standard_def and_then_def)

lemma normalize_file_no_records:
  "normalize_file (''input_data/batch_results/housing_prompt_v2_gemma-2-2b-it_output.jsonl'', [])
     = Inl AttributeError"
  by (simp add: normalize_file_def claude_format_def and_then_def)

subsection \<open>The row-count assertion\<close>

lemma n_custom_ids_card: "n_custom_ids df = card (fst ` set (map row_key df))"
  by (simp add: n_custom_ids_def length_remdups_card_conv image_image row_key_def)

lemma n_models_card: "n_models df = card (snd ` set (map row_key df))"
  by (simp add: n_models_def length_remdups_card_conv image_image row_key_def)

lemma n_custom_ids_zero: "n_custom_ids df = 0 \<longleftrightarrow> df = []"
  by (simp add: n_custom_ids_def)

lemma merge_check_Inr_iff:
  "merge_check df = Inr () \<longleftrightarrow>
     df \<noteq> [] \<and> length df = n_custom_ids df * n_models df"
proof (cases "df = []")
  case True
  then show ?thesis by (simp add: merge_check_def n_custom_ids_def)
next
  case False
  then have nz: "n_custom_ids df \<noteq> 0" by (simp add: n_custom_ids_zero)
  then have "real (length df) / real (n_custom_ids df) = real (n_models df)
      \<longleftrightarrow> real (length df) = real (n_models df) * real (n_custom_ids df)"
    by (simp add: divide_eq_eq)
  also have "\<dots> \<longleftrightarrow> length df = n_custom_ids df * n_models df"
    by (metis mult.commute of_nat_eq_iff of_nat_mult)
  finally show ?thesis using False nz by (simp add: merge_check_def)
qed

lemma merge_check_violation:
  assumes "length df \<noteq> n_custom_ids df * n_models df"
  shows "merge_check df = Inl AssertionError"
proof -
  from assms have ne: "df \<noteq> []" by (auto simp: n_custom_ids_def)
  then have nz: "n_custom_ids df \<noteq> 0" by (simp add: n_custom_ids_zero)
  from assms have "merge_check df \<noteq> Inr ()" by (simp add: merge_check_Inr_iff)
  with nz show ?thesis by (auto simp: merge_check_def split: if_splits)
qed

lemma set_remove_nth:
  "distinct xs \<Longrightarrow> k < length xs \<Longrightarrow> set (take k xs @ drop (Suc k) xs) = set xs - {xs ! k}"
proof -
  assume d: "distinct xs" and k: "k < length xs"
  have xs: "xs = take k xs @ xs ! k # drop (Suc k) xs"
    using k by (rule id_take_nth_drop)
  from d have "distinct (take k xs @ xs ! k # drop (Suc k) xs)" using xs by simp
  then have "xs ! k \<notin> set (take k xs)" "xs ! k \<notin> set (drop (Suc k) xs)" by auto
  moreover have "set xs = set (take k xs) \<union> {xs ! k} \<union> set (drop (Suc k) xs)"
    by (subst xs) auto
  ultimately show ?thesis by auto
qed

lemma card_ge_2_other:
  assumes "2 \<le> card B"
  shows "\<exists>y \<in> B. y \<noteq> b"
proof (rule ccontr)
  assume "\<not> (\<exists>y \<in> B. y \<noteq> b)"
  then have "B \<subseteq> {b}" by auto
  then have "card B \<le> card {b}" by (intro card_mono) auto
  with assms show False by simp
qed

lemma grid_minus_point:
  assumes "2 \<le> card A" and "2 \<le> card B"
  shows "fst ` (A \<times> B - {(a, b)}) = A" and "snd ` (A \<times> B - {(a, b)}) = B"
proof -
  show "fst ` (A \<times> B - {(a, b)}) = A"
  proof
    show "fst ` (A \<times> B - {(a, b)}) \<subseteq> A" by auto
    show "A \<subseteq> fst ` (A \<times> B - {(a, b)})"
    proof
      fix x assume "x \<in> A"
      from card_ge_2_other [OF assms(2), of b] obtain y where "y \<in> B" "y \<noteq> b" by blast
      with \<open>x \<in> A\<close> have "(x, y) \<in> A \<times> B - {(a, b)}" by simp
      then show "x \<in> fst ` (A \<times> B - {(a, b)})" by force
    qed
  qed
  show "snd ` (A \<times> B - {(a, b)}) = B"
  proof
    show "snd ` (A \<times> B - {(a, b)}) \<subseteq> B" by auto
    show "B \<subseteq> snd ` (A \<times> B - {(a, b)})"
    proof
      fix y assume "y \<in> B"
      from card_ge_2_other [OF assms(1), of a] obtain x where "x \<in> A" "x \<noteq> a" by blast
      with \<open>y \<in> B\<close> have "(x, y) \<in> A \<times> B - {(a, b)}" by simp
      then show "y \<in> snd ` (A \<times> B - {(a, b)})" by force
    qed
  qed
qed

lemma complete_table_length:
  assumes "complete_table df"
  shows "length df = n_custom_ids df * n_models df"
proof -
  let ?A = "set (map (\<lambda>row. custom_id (fst row)) df)"
  let ?B = "set (map (\<lambda>row. model (fst row)) df)"
  from assms have d: "distinct (map row_key df)" and g: "set (map row_key df) = ?A \<times> ?B"
    by (simp_all add: complete_table_def)
  have "length df = length (map row_key df)" by simp
  also have "\<dots> = card (set (map row_key df))" by (rule distinct_card [OF d, symmetric])
  also have "\<dots> = card ?A * card ?B" unfolding g by (rule card_cartesian_product)
  also have "\<dots> = n_custom_ids df * n_models df"
    by (simp add: n_custom_ids_def n_models_def length_remdups_card_conv)
  finally show ?thesis .
qed

lemma complete_table_remove:
  assumes c: "complete_table df" and k: "k < length df"
    and a2: "2 \<le> n_custom_ids df" and b2: "2 \<le> n_models df"
  shows "merge_check (take k df @ drop (Suc k) df) = Inl AssertionError"
proof -
  let ?A = "set (map (\<lambda>row. custom_id (fst row)) df)"
  let ?B = "set (map (\<lambda>row. model (fst row)) df)"
  let ?df' = "take k df @ drop (Suc k) df"
  let ?ks = "map row_key df"
  from c have d: "distinct ?ks" and g: "set ?ks = ?A \<times> ?B"
    by (simp_all add: complete_table_def)
  have cA: "card ?A = n_custom_ids df" and cB: "card ?B = n_models df"
    by (simp_all add: n_custom_ids_def n_models_def length_remdups_card_conv)
  have ks': "map row_key ?df' = take k ?ks @ drop (Suc k) ?ks"
    by (simp add: take_map drop_map)
  obtain a b where ab: "?ks ! k = (a, b)" by (cases "?ks ! k")
  have k': "k < length ?ks" using k by simp
  have s0: "set (map row_key ?df') = set ?ks - {?ks ! k}"
    unfolding ks' using d k' by (rule set_remove_nth)
  have s: "set (map row_key ?df') = ?A \<times> ?B - {(a, b)}"
    using s0 unfolding g ab .
  have a2': "2 \<le> card ?A" and b2': "2 \<le> card ?B" using a2 b2 unfolding cA cB .
  have ia: "n_custom_ids ?df' = card ?A"
    unfolding n_custom_ids_card s grid_minus_point(1) [OF a2' b2'] ..
  have ib: "n_models ?df' = card ?B"
    unfolding n_models_card s grid_minus_point(2) [OF a2' b2'] ..
  have "length df = card ?A * card ?B"
    using complete_table_length [OF c] unfolding cA cB .
  then have prod: "n_custom_ids ?df' * n_models ?df' = length df"
    unfolding ia ib by (rule sym)
  have "length ?df' < length df" using k by simp
  then have "length ?df' \<noteq> n_custom_ids ?df' * n_models ?df'"
    unfolding prod by simp
  then show ?thesis by (rule merge_check_violation)
qed

lemma merger_Inr:
  "merger df_seed fns = Inr df_all \<longleftrightarrow>
     merge_all df_seed fns = Inr df_all \<and> merge_check df_all = Inr ()"
  by (auto simp: merger_def and_then_def split: sum.splits)

lemma merger_Inl:
  "merge_all df_seed fns = Inr df_all \<Longrightarrow> merge_check df_all = Inl e \<Longrightarrow>
     merger df_seed fns = Inl e"
  by (simp add: merger_def and_then_def)

lemma str_nat_0: "str_nat 0 = ''0''"
  by (simp add: str_nat.simps digit_char_def)

lemma str_nat_1: "str_nat (Suc 0) = ''1''"
  by (simp add: str_nat.simps digit_char_def)

lemmas merge_eval =
  merger_def merge_all_def merge_inner_def normalize_file_def claude_format_def
  normalize_standard_def and_then_def flat_column_def chat_completion_def two_tasks_def example_task_def
  answer_row_def seed_custom_id_def str_nat_0 str_nat_1 gemma_results_def phi_results_def
  gemma_results_missing_one_def

lemma merge_all_two_by_two:
  "merge_all two_tasks [gemma_results, phi_results] =
     Inr [answer_row ''task-0'' ''google/gemma-2-2b-it'' ''$2,500'' 0,
          answer_row ''task-1'' ''google/gemma-2-2b-it'' ''$2,600'' 1,
          answer_row ''task-0'' ''microsoft/Phi-3-mini-4k-instruct'' ''I would say $3,000'' 0,
          answer_row ''task-1'' ''microsoft/Phi-3-mini-4k-instruct'' ''$2,900'' 1]"
  by (simp add: merge_eval)

text \<open>
  C2 (amended). When the merger returns a table, its row count is the number of
  distinct custom_id values times the number of distinct model values; when the merged
  table violates this, the merger ends in an AssertionError. A table in which every
  task is answered by every model exactly once passes. Such a table over at least two
  tasks and at least two models fails the assertion as soon as any one row is missing.
\<close>

theorem merge_row_count_invariant:
  "(merger df_seed fns = Inr df_all \<longrightarrow>
      length df_all = n_custom_ids df_all * n_models df_all)
   \<and> (merge_all df_seed fns = Inr df_all
        \<and> length df_all \<noteq> n_custom_ids df_all * n_models df_all \<longrightarrow>
      merger df_seed fns = Inl AssertionError)
   \<and> (complete_table t \<and> t \<noteq> [] \<longrightarrow> merge_check t = Inr ())
   \<and> (complete_table t \<and> 2 \<le> n_custom_ids t \<and> 2 \<le> n_models t \<and> k < length t \<longrightarrow>
      merge_check (take k t @ drop (Suc k) t) = Inl AssertionError)"
proof (intro conjI impI)
  assume "merger df_seed fns = Inr df_all"
  then show "length df_all = n_custom_ids df_all * n_models df_all"
    by (simp add: merger_Inr merge_check_Inr_iff)
next
  assume a: "merge_all df_seed fns = Inr df_all
        \<and> length df_all \<noteq> n_custom_ids df_all * n_models df_all"
  then have "merge_check df_all = Inl AssertionError" by (simp add: merge_check_violation)
  with a show "merger df_seed fns = Inl AssertionError" by (simp add: merger_Inl)
next
  assume "complete_table t \<and> t \<noteq> []"
  then show "merge_check t = Inr ()"
    by (simp add: merge_check_Inr_iff complete_table_length)
next
  assume "complete_table t \<and> 2 \<le> n_custom_ids t \<and> 2 \<le> n_models t \<and> k < length t"
  then show "merge_check (take k t @ drop (Suc k) t) = Inl AssertionError"
    by (simp add: complete_table_remove)
qed

theorem merge_row_count_invariant_witness:
  "merger two_tasks [gemma_results, phi_results] =
     Inr [answer_row ''task-0'' ''google/gemma-2-2b-it'' ''$2,500'' 0,
          answer_row ''task-1'' ''google/gemma-2-2b-it'' ''$2,600'' 1,
          answer_row ''task-0'' ''microsoft/Phi-3-mini-4k-instruct'' ''I would say $3,000'' 0,
          answer_row ''task-1'' ''microsoft/Phi-3-mini-4k-instruct'' ''$2,900'' 1]
   \<and> complete_table
        [answer_row ''task-0'' ''google/gemma-2-2b-it'' ''$2,500'' 0,
         answer_row ''task-1'' ''google/gemma-2-2b-it'' ''$2,600'' 1,
         answer_row ''task-0'' ''microsoft/Phi-3-mini-4k-instruct'' ''I would say $3,000'' 0,
         answer_row ''task-1'' ''microsoft/Phi-3-mini-4k-instruct'' ''$2,900'' 1]
   \<and> merge_check
        [answer_row ''task-0'' ''google/gemma-2-2b-it'' ''$2,500'' 0,
         answer_row ''task-1'' ''google/gemma-2-2b-it'' ''$2,600'' 1,
         answer_row ''task-0'' ''microsoft/Phi-3-mini-4k-instruct'' ''I would say $3,000'' 0]
      = Inl AssertionError"
proof -
  let ?t = "[answer_row ''task-0'' ''google/gemma-2-2b-it'' ''$2,500'' 0,
         answer_row ''task-1'' ''google/gemma-2-2b-it'' ''$2,600'' 1,
         answer_row ''task-0'' ''microsoft/Phi-3-mini-4k-instruct'' ''I would say $3,000'' 0,
         answer_row ''task-1'' ''microsoft/Phi-3-mini-4k-instruct'' ''$2,900'' 1]"
  note h = merge_row_count_invariant [of two_tasks "[gemma_results, phi_results]" ?t ?t 3]
  have c: "complete_table ?t"
    by (auto simp: complete_table_def row_key_def answer_row_def)
  have n: "2 \<le> n_custom_ids ?t" "2 \<le> n_models ?t" "3 < length ?t" "?t \<noteq> []"
    by (simp_all add: n_custom_ids_def n_models_def answer_row_def)
  from h c n have p: "merge_check ?t = Inr ()" by blast
  with merge_all_two_by_two have m: "merger two_tasks [gemma_results, phi_results] = Inr ?t"
    by (simp add: merger_Inr)
  from h c n have "merge_check (take 3 ?t @ drop (Suc 3) ?t) = Inl AssertionError" by blast
  then have "merge_check
        [answer_row ''task-0'' ''google/gemma-2-2b-it'' ''$2,500'' 0,
         answer_row ''task-1'' ''google/gemma-2-2b-it'' ''$2,600'' 1,
         answer_row ''task-0'' ''microsoft/Phi-3-mini-4k-instruct'' ''I would say $3,000'' 0]
      = Inl AssertionError" by simp
  with m c show ?thesis by blast
qed

text \<open>
  C2, as stated, fails for a single model: the numbers of distinct tasks and models are
  taken from the merged rows themselves, so with the result for task 1 missing the one
  remaining row still satisfies the assertion, and the merger returns it.
\<close>

theorem merge_missing_row_counterexample:
  "merger two_tasks [gemma_results] =
     Inr [answer_row ''task-0'' ''google/gemma-2-2b-it'' ''$2,500'' 0,
          answer_row ''task-1'' ''google/gemma-2-2b-it'' ''$2,600'' 1]
   \<and> merger two_tasks [gemma_results_missing_one] =
     Inr [answer_row ''task-0'' ''google/gemma-2-2b-it'' ''$2,500'' 0]"
  by (simp add: merge_eval merge_check_def n_custom_ids_def n_models_def)

section \<open>Properties of the request file round trip\<close>

subsection \<open>Strings survive the round trip\<close>

lemma hex_val_hex_digit: "d < 16 \<Longrightarrow> hex_val (hex_digit d) = Some d"
proof -
  assume "d < 16"
  then have "d = 0 \<or> d = 1 \<or> d = 2 \<or> d = 3 \<or> d = 4 \<or> d = 5 \<or> d = 6 \<or> d = 7
      \<or> d = 8 \<or> d = 9 \<or> d = 10 \<or> d = 11 \<or> d = 12 \<or> d = 13 \<or> d = 14 \<or> d = 15"
    by arith
  then show ?thesis
    by (elim disjE) (simp_all add: hex_val_def hex_digit_def upt_rec)
qed

lemma hex4_digits:
  assumes "n < 256"
  shows "hex4 [hex_digit (n div 4096), hex_digit (n div 256 mod 16),
               hex_digit (n div 16 mod 16), hex_digit (n mod 16)] = Some n"
proof -
  from assms have z: "n div 4096 = 0" "n div 256 = 0" by simp_all
  from assms have b: "n div 16 < 16" by (simp add: div_less_iff_less_mult)
  then have m: "n div 16 mod 16 = n div 16" by simp
  have c: "n mod 16 < 16" by simp
  have "(n div 16) * 16 + n mod 16 = n" by simp
  then show ?thesis
    unfolding z m hex4_def using hex_val_hex_digit [OF b] hex_val_hex_digit [OF c]
      hex_val_hex_digit [of 0]
    by simp
qed

lemma of_char_less_256: "(of_char c :: nat) < 256"
  by (metis of_char_mod_256 mod_less_divisor zero_less_numeral)

lemma cons_result_Some: "cons_result c (Some (s, r)) = Some (c # s, r)"
  by (simp add: cons_result_def)

lemma parse_escape_char:
  "parse_string_body (escape_char c @ t) = cons_result c (parse_string_body t)"
proof -
  consider (short) "c \<in> {CHR 0x22, CHR 0x5C, CHR 0x0A, CHR 0x0D, CHR 0x09, CHR 0x08, CHR 0x0C}"
    | (plain) "c \<notin> {CHR 0x22, CHR 0x5C, CHR 0x0A, CHR 0x0D, CHR 0x09, CHR 0x08, CHR 0x0C}"
        "32 \<le> (of_char c :: nat)" "(of_char c :: nat) \<le> 126"
    | (hex) "c \<notin> {CHR 0x22, CHR 0x5C, CHR 0x0A, CHR 0x0D, CHR 0x09, CHR 0x08, CHR 0x0C}"
        "\<not> (32 \<le> (of_char c :: nat) \<and> (of_char c :: nat) \<le> 126)"
    by blast
  then show ?thesis
  proof cases
    case short
    then show ?thesis
      by (elim insertE emptyE) (simp_all add: escape_char_def unescape_def)
  next
    case plain
    then show ?thesis by (simp add: escape_char_def)
  next
    case hex
    let ?n = "of_char c :: nat"
    define ds where "ds = [hex_digit (?n div 4096), hex_digit (?n div 256 mod 16),
               hex_digit (?n div 16 mod 16), hex_digit (?n mod 16)]"
    have n: "?n < 256" by (rule of_char_less_256)
    then have h: "hex4 ds = Some ?n" unfolding ds_def by (rule hex4_digits)
    have "length ds = 4" by (simp add: ds_def)
    then have tk: "take 4 (ds @ t) = ds" "drop 4 (ds @ t) = t" by simp_all
    from hex have e: "escape_char c = CHR 0x5C # CHR ''u'' # ds"
      by (simp add: escape_char_def ds_def)
    have "parse_string_body ((CHR 0x5C # CHR ''u'' # ds) @ t)
        = cons_result (char_of ?n) (parse_string_body t)"
      using h n tk by simp
    then show ?thesis unfolding e by simp
  qed
qed

lemma parse_string_body_escaped:
  "parse_string_body (concat (map escape_char s) @ CHR 0x22 # rest) = Some (s, rest)"
  by (induction s) (simp_all add: parse_escape_char cons_result_Some)

lemma parse_encoded_string:
  "encode_string s @ rest = CHR 0x22 # concat (map escape_char s) @ CHR 0x22 # rest"
  by (simp add: encode_string_def)

subsection \<open>Values survive the round trip\<close>

lemma starts_value_append: "starts_value s \<Longrightarrow> starts_value (s @ t)"
  by (cases s) (simp_all add: starts_value_def)

lemma starts_value_encode: "starts_value (encode_string s @ t)"
  by (simp add: starts_value_def encode_string_def)

lemma starts_value_dumps: "starts_value (dumps v @ t)"
  by (cases v) (simp_all add: starts_value_def encode_string_def)

lemma starts_value_items: "vs \<noteq> [] \<Longrightarrow> starts_value (dumps_items vs @ t)"
proof (cases vs)
  case Nil
  assume "vs \<noteq> []"
  with Nil show ?thesis by simp
next
  case (Cons v ws)
  show ?thesis
  proof (cases ws)
    case Nil
    with Cons show ?thesis by (simp add: starts_value_dumps)
  next
    case (Cons w us)
    with \<open>vs = v # ws\<close> show ?thesis
      using starts_value_dumps [of v "'', '' @ dumps_items (w # us) @ t"] by simp
  qed
qed

lemma skip_ws_starts_value: "starts_value s \<Longrightarrow> skip_ws s = s"
  by (cases s) (auto simp: starts_value_def skip_ws_def is_ws_def)

lemma skip_ws_space: "skip_ws (CHR '' '' # s) = skip_ws s"
  by (simp add: skip_ws_def is_ws_def)

lemma skip_ws_punct:
  "skip_ws (CHR '','' # s) = CHR '','' # s"
  "skip_ws (CHR '']'' # s) = CHR '']'' # s"
  "skip_ws (CHR ''}'' # s) = CHR ''}'' # s"
  "skip_ws (CHR '':'' # s) = CHR '':'' # s"
  "skip_ws (CHR ''['' # s) = CHR ''['' # s"
  "skip_ws (CHR ''{'' # s) = CHR ''{'' # s"
  "skip_ws (CHR 0x22 # s) = CHR 0x22 # s"
  by (simp_all add: skip_ws_def is_ws_def)

lemma parse_value_space: "parse_value n (CHR '' '' # s) = parse_value n s"
  by (cases n) (simp_all add: skip_ws_space)

lemma parse_items_space: "parse_items n (CHR '' '' # s) = parse_items n s"
  by (cases n) (simp_all add: parse_value_space)

lemma parse_pairs_space: "parse_pairs n (CHR '' '' # s) = parse_pairs n s"
  by (cases n) (simp_all add: skip_ws_space)

lemma parse_value_literal:
  "parse_value (Suc n) (''null'' @ t) = Some (JNull, t)"
  "parse_value (Suc n) (''true'' @ t) = Some (JBool True, t)"
  "parse_value (Suc n) (''false'' @ t) = Some (JBool False, t)"
  by (simp_all add: skip_ws_def is_ws_def)

lemma parse_value_string:
  "parse_value (Suc n) (encode_string s @ t) = Some (JString s, t)"
  by (simp add: parse_encoded_string skip_ws_punct parse_string_body_escaped)

lemma parse_value_array_empty:
  "parse_value (Suc n) (CHR ''['' # CHR '']'' # t) = Some (JArray [], t)"
  by (simp add: skip_ws_punct)

lemma parse_value_array:
  assumes "starts_value s"
  shows "parse_value (Suc n) (CHR ''['' # s) = map_option (\<lambda>p. (JArray (fst p), snd p)) (parse_items n s)"
proof -
  from assms obtain c t where s: "s = c # t" and c: "c \<noteq> CHR '']''"
    by (cases s) (auto simp: starts_value_def)
  from assms have "skip_ws s = s" by (rule skip_ws_starts_value)
  with s c show ?thesis by (simp add: skip_ws_punct)
qed

lemma parse_value_object_empty:
  "parse_value (Suc n) (CHR ''{'' # CHR ''}'' # t) = Some (JObject [], t)"
  by (simp add: skip_ws_punct)

lemma parse_value_object:
  assumes "starts_value s"
  shows "parse_value (Suc n) (CHR ''{'' # s) = map_option (\<lambda>p. (JObject (fst p), snd p)) (parse_pairs n s)"
proof -
  from assms obtain c t where s: "s = c # t" and c: "c \<noteq> CHR ''}''"
    by (cases s) (auto simp: starts_value_def)
  from assms have "skip_ws s = s" by (rule skip_ws_starts_value)
  with s c show ?thesis by (simp add: skip_ws_punct)
qed

lemma parse_items_last:
  "parse_value n s = Some (v, CHR '']'' # r) \<Longrightarrow> parse_items (Suc n) s = Some ([v], r)"
  by (simp add: skip_ws_punct)

lemma parse_items_more:
  "parse_value n s = Some (v, CHR '','' # r) \<Longrightarrow>
     parse_items (Suc n) s = map_option (\<lambda>p. (v # fst p, snd p)) (parse_items n r)"
  by (simp add: skip_ws_punct)

lemma parse_pairs_last:
  "parse_value n s = Some (v, CHR ''}'' # r) \<Longrightarrow>
     parse_pairs (Suc n) (encode_string k @ CHR '':'' # s) = Some ([(k, v)], r)"
  by (simp add: parse_encoded_string skip_ws_punct parse_string_body_escaped)

lemma parse_pairs_more:
  "parse_value n s = Some (v, CHR '','' # r) \<Longrightarrow>
     parse_pairs (Suc n) (encode_string k @ CHR '':'' # s)
       = map_option (\<lambda>p. ((k, v) # fst p, snd p)) (parse_pairs n r)"
  by (simp add: parse_encoded_string skip_ws_punct parse_string_body_escaped)

lemma dumps_round_trip:
  "\<forall>n t. nodes v \<le> n \<longrightarrow> parse_value n (dumps v @ t) = Some (v, t)"
  "vs \<noteq> [] \<longrightarrow> (\<forall>n t. nodes_items vs \<le> n \<longrightarrow>
      parse_items n (dumps_items vs @ CHR '']'' # t) = Some (vs, t))"
  "kvs \<noteq> [] \<longrightarrow> (\<forall>n t. nodes_pairs kvs \<le> n \<longrightarrow>
      parse_pairs n (dumps_members kvs @ CHR ''}'' # t) = Some (kvs, t))"
proof (induction v and vs and kvs rule: dumps_dumps_items_dumps_members.induct)
  case 1
  show ?case
  proof (intro allI impI)
    fix n t assume "nodes JNull \<le> n"
    then obtain m where "n = Suc m" by (cases n) auto
    then show "parse_value n (dumps JNull @ t) = Some (JNull, t)"
      using parse_value_literal(1) [of m t] by simp
  qed
next
  case (2 b)
  show ?case
  proof (intro allI impI)
    fix n t assume "nodes (JBool b) \<le> n"
    then obtain m where "n = Suc m" by (cases n) auto
    then show "parse_value n (dumps (JBool b) @ t) = Some (JBool b, t)"
      using parse_value_literal(2) [of m t] parse_value_literal(3) [of m t] by (cases b) simp_all
  qed
next
  case (3 s)
  show ?case
  proof (intro allI impI)
    fix n t assume "nodes (JString s) \<le> n"
    then obtain m where "n = Suc m" by (cases n) auto
    then show "parse_value n (dumps (JString s) @ t) = Some (JString s, t)"
      using parse_value_string [of m s t] by simp
  qed
next
  case (4 vs)
  show ?case
  proof (intro allI impI)
    fix n t assume "nodes (JArray vs) \<le> n"
    then obtain m where n: "n = Suc m" and m: "nodes_items vs \<le> m" by (cases n) auto
    show "parse_value n (dumps (JArray vs) @ t) = Some (JArray vs, t)"
    proof (cases "vs = []")
      case True
      then show ?thesis using parse_value_array_empty [of m t] by (simp add: n)
    next
      case False
      then have "starts_value (dumps_items vs @ CHR '']'' # t)" by (rule starts_value_items)
      then have "parse_value (Suc m) (CHR ''['' # dumps_items vs @ CHR '']'' # t)
          = map_option (\<lambda>p. (JArray (fst p), snd p))
              (parse_items m (dumps_items vs @ CHR '']'' # t))"
        by (rule parse_value_array)
      also have "parse_items m (dumps_items vs @ CHR '']'' # t) = Some (vs, t)"
        using "4.IH" False m by blast
      finally show ?thesis by (simp add: n)
    qed
  qed
next
  case (5 kvs)
  show ?case
  proof (intro allI impI)
    fix n t assume "nodes (JObject kvs) \<le> n"
    then obtain m where n: "n = Suc m" and m: "nodes_pairs kvs \<le> m" by (cases n) auto
    show "parse_value n (dumps (JObject kvs) @ t) = Some (JObject kvs, t)"
    proof (cases kvs)
      case Nil
      then show ?thesis using parse_value_object_empty [of m t] by (simp add: n)
    next
      case (Cons kv rest)
      then have ne: "kvs \<noteq> []" by simp
      obtain k v where kv: "kv = (k, v)" by (cases kv)
      have "starts_value (dumps_members kvs @ CHR ''}'' # t)"
        using Cons kv starts_value_encode by (cases rest) simp_all
      then have "parse_value (Suc m) (CHR ''{'' # dumps_members kvs @ CHR ''}'' # t)
          = map_option (\<lambda>p. (JObject (fst p), snd p))
              (parse_pairs m (dumps_members kvs @ CHR ''}'' # t))"
        by (rule parse_value_object)
      also have "parse_pairs m (dumps_members kvs @ CHR ''}'' # t) = Some (kvs, t)"
        using "5.IH" ne m by blast
      finally show ?thesis by (simp add: n)
    qed
  qed
next
  case 6
  show ?case by simp
next
  case (7 v)
  show ?case
  proof (intro allI impI)
    fix n t assume "nodes_items [v] \<le> n"
    then obtain m where n: "n = Suc m" and m: "nodes v \<le> m" by (cases n) auto
    from "7.IH" m have "parse_value m (dumps v @ CHR '']'' # t) = Some (v, CHR '']'' # t)"
      by blast
    then have "parse_items (Suc m) (dumps v @ CHR '']'' # t) = Some ([v], t)"
      by (rule parse_items_last)
    then show "parse_items n (dumps_items [v] @ CHR '']'' # t) = Some ([v], t)"
      by (simp add: n)
  qed
next
  case (8 v w vs)
  show ?case
  proof (intro allI impI)
    fix n t assume "nodes_items (v # w # vs) \<le> n"
    then obtain m where n: "n = Suc m" and m: "nodes v \<le> m" "nodes_items (w # vs) \<le> m"
      by (cases n) auto
    let ?r = "dumps_items (w # vs) @ CHR '']'' # t"
    from "8.IH"(1) m(1)
    have "parse_value m (dumps v @ CHR '','' # CHR '' '' # ?r) = Some (v, CHR '','' # CHR '' '' # ?r)"
      by blast
    then have "parse_items (Suc m) (dumps v @ CHR '','' # CHR '' '' # ?r)
        = map_option (\<lambda>p. (v # fst p, snd p)) (parse_items m (CHR '' '' # ?r))"
      by (rule parse_items_more)
    also have "parse_items m (CHR '' '' # ?r) = parse_items m ?r" by (rule parse_items_space)
    also have "parse_items m ?r = Some (w # vs, t)" using "8.IH"(2) m(2) by blast
    finally show "parse_items n (dumps_items (v # w # vs) @ CHR '']'' # t) = Some (v # w # vs, t)"
      by (simp add: n)
  qed
next
  case 9
  show ?case by simp
next
  case (10 k v)
  show ?case
  proof (intro allI impI)
    fix n t assume "nodes_pairs [(k, v)] \<le> n"
    then obtain m where n: "n = Suc m" and m: "nodes v \<le> m" by (cases n) auto
    from "10.IH" m have "parse_value m (dumps v @ CHR ''}'' # t) = Some (v, CHR ''}'' # t)"
      by blast
    then have "parse_value m (CHR '' '' # dumps v @ CHR ''}'' # t) = Some (v, CHR ''}'' # t)"
      by (simp add: parse_value_space)
    then have "parse_pairs (Suc m) (encode_string k @ CHR '':'' # CHR '' '' # dumps v @ CHR ''}'' # t)
        = Some ([(k, v)], t)"
      by (rule parse_pairs_last)
    then show "parse_pairs n (dumps_members [(k, v)] @ CHR ''}'' # t) = Some ([(k, v)], t)"
      by (simp add: n)
  qed
next
  case (11 k v kv kvs)
  show ?case
  proof (intro allI impI)
    fix n t assume "nodes_pairs ((k, v) # kv # kvs) \<le> n"
    then obtain m where n: "n = Suc m" and m: "nodes v \<le> m" "nodes_pairs (kv # kvs) \<le> m"
      by (cases n) auto
    let ?r = "dumps_members (kv # kvs) @ CHR ''}'' # t"
    from "11.IH"(1) m(1)
    have "parse_value m (dumps v @ CHR '','' # CHR '' '' # ?r) = Some (v, CHR '','' # CHR '' '' # ?r)"
      by blast
    then have "parse_value m (CHR '' '' # dumps v @ CHR '','' # CHR '' '' # ?r)
        = Some (v, CHR '','' # CHR '' '' # ?r)"
      by (simp add: parse_value_space)
    then have "parse_pairs (Suc m)
          (encode_string k @ CHR '':'' # CHR '' '' # dumps v @ CHR '','' # CHR '' '' # ?r)
        = map_option (\<lambda>p. ((k, v) # fst p, snd p)) (parse_pairs m (CHR '' '' # ?r))"
      by (rule parse_pairs_more)
    also have "parse_pairs m (CHR '' '' # ?r) = parse_pairs m ?r" by (rule parse_pairs_space)
    also have "parse_pairs m ?r = Some (kv # kvs, t)" using "11.IH"(2) m(2) by blast
    finally show "parse_pairs n (dumps_members ((k, v) # kv # kvs) @ CHR ''}'' # t)
        = Some ((k, v) # kv # kvs, t)"
      by (simp add: n)
  qed
qed

subsection \<open>The text is long enough to serve as fuel\<close>

lemma length_encode_string: "2 \<le> length (encode_string s)"
  by (simp add: encode_string_def)

lemma nodes_le_length:
  "nodes v \<le> length (dumps v)"
  "nodes_items vs \<le> length (dumps_items vs) + 1"
  "nodes_pairs kvs \<le> length (dumps_members kvs) + 1"
proof (induction v and vs and kvs rule: dumps_dumps_items_dumps_members.induct)
  case (3 s)
  show ?case using length_encode_string [of s] by simp
next
  case (10 k v)
  then show ?case using length_encode_string [of k] by simp
next
  case (11 k v kv kvs)
  then show ?case using length_encode_string [of k] by simp
qed simp_all

lemma nodes_items_le_join:
  "nodes_items vs \<le> length (join_comma (map dumps vs)) + 1"
proof (induction vs rule: induct_list012)
  case 1
  show ?case by simp
next
  case (2 v)
  show ?case using nodes_le_length(1) [of v] by simp
next
  case (3 v w vs)
  then show ?case using nodes_le_length(1) [of v] by simp
qed

lemma join_comma_round_trip:
  "vs \<noteq> [] \<Longrightarrow> nodes_items vs \<le> n \<Longrightarrow>
     parse_items n (join_comma (map dumps vs) @ CHR '']'' # t) = Some (vs, t)"
proof (induction vs arbitrary: n rule: induct_list012)
  case 1
  then show ?case by simp
next
  case (2 v)
  then obtain m where n: "n = Suc m" and m: "nodes v \<le> m" by (cases n) auto
  from dumps_round_trip(1) [of v] m
  have "parse_value m (dumps v @ CHR '']'' # t) = Some (v, CHR '']'' # t)" by blast
  then have "parse_items (Suc m) (dumps v @ CHR '']'' # t) = Some ([v], t)"
    by (rule parse_items_last)
  then show ?case by (simp add: n)
next
  case (3 v w vs)
  from "3.prems" obtain m where n: "n = Suc m" and m: "nodes v \<le> m" "nodes_items (w # vs) \<le> m"
    by (cases n) auto
  let ?r = "join_comma (map dumps (w # vs)) @ CHR '']'' # t"
  from dumps_round_trip(1) [of v] m(1)
  have "parse_value m (dumps v @ CHR '','' # ?r) = Some (v, CHR '','' # ?r)" by blast
  then have "parse_items (Suc m) (dumps v @ CHR '','' # ?r)
      = map_option (\<lambda>p. (v # fst p, snd p)) (parse_items m ?r)"
    by (rule parse_items_more)
  also have "parse_items m ?r = Some (w # vs, t)" using "3.IH"(2) m(2) by simp
  finally show ?case by (simp add: n)
qed

lemma json_loads_lines:
  "json_loads (''['' @ join_comma (map dumps vs) @ '']'') = Some (JArray vs)"
proof (cases "vs = []")
  case True
  then show ?thesis by (simp add: json_loads_def skip_ws_def is_ws_def)
next
  case False
  let ?body = "join_comma (map dumps vs)"
  let ?m = "Suc (length ?body)"
  have len: "length (''['' @ ?body @ '']'') = Suc ?m" by simp
  have m: "nodes_items vs \<le> ?m" using nodes_items_le_join [of vs] by simp
  have "starts_value (?body @ '']'')"
  proof -
    from False obtain v ws where vs: "vs = v # ws" by (cases vs) auto
    show ?thesis using starts_value_dumps [of v] vs
      by (cases ws) (simp_all add: starts_value_append)
  qed
  then have "parse_value (Suc ?m) (CHR ''['' # ?body @ '']'')
      = map_option (\<lambda>p. (JArray (fst p), snd p)) (parse_items ?m (?body @ '']''))"
    by (rule parse_value_array)
  also have "parse_items ?m (?body @ '']'') = Some (vs, [])"
    using join_comma_round_trip [OF False m, of "[]"] by simp
  finally have "parse_value (Suc ?m) (''['' @ ?body @ '']'') = Some (JArray vs, [])" by simp
  then show ?thesis unfolding json_loads_def len by (simp add: skip_ws_def)
qed

subsection \<open>Lines survive the splitting\<close>

lemma hex_digit_not_newline: "d < 16 \<Longrightarrow> hex_digit d \<noteq> CHR 0x0A"
proof -
  assume "d < 16"
  then have "hex_digit d \<in> set ''0123456789abcdef''"
    unfolding hex_digit_def by (intro nth_mem) simp
  then show ?thesis by auto
qed

lemma hex_digits_no_newline:
  assumes "n < 256"
  shows "hex_digit (n div 4096) \<noteq> CHR 0x0A" "hex_digit (n div 256 mod 16) \<noteq> CHR 0x0A"
    "hex_digit (n div 16 mod 16) \<noteq> CHR 0x0A" "hex_digit (n mod 16) \<noteq> CHR 0x0A"
proof -
  from assms have "n div 4096 < 16" by simp
  then show "hex_digit (n div 4096) \<noteq> CHR 0x0A" by (rule hex_digit_not_newline)
  show "hex_digit (n div 256 mod 16) \<noteq> CHR 0x0A" by (rule hex_digit_not_newline) simp
  show "hex_digit (n div 16 mod 16) \<noteq> CHR 0x0A" by (rule hex_digit_not_newline) simp
  show "hex_digit (n mod 16) \<noteq> CHR 0x0A" by (rule hex_digit_not_newline) simp
qed

lemma escape_char_no_newline: "CHR 0x0A \<notin> set (escape_char c)"
  using hex_digits_no_newline [OF of_char_less_256, of c]
  by (auto simp: escape_char_def)

lemma encode_string_no_newline: "CHR 0x0A \<notin> set (encode_string s)"
  using escape_char_no_newline by (auto simp: encode_string_def)

lemma dumps_no_newline:
  "CHR 0x0A \<notin> set (dumps v)"
  "CHR 0x0A \<notin> set (dumps_items vs)"
  "CHR 0x0A \<notin> set (dumps_members kvs)"
  by (induction v and vs and kvs rule: dumps_dumps_items_dumps_members.induct)
     (simp_all add: encode_string_no_newline)

lemma split_on_ne: "split_on sep s \<noteq> []"
  by (induction s) (auto split: list.splits)

lemma split_on_line:
  "sep \<notin> set l \<Longrightarrow> split_on sep (l @ sep # s) = l # split_on sep s"
  by (induction l) (auto split: list.splits simp: split_on_ne)

lemma split_on_file_text:
  "\<forall>l \<in> set ls. CHR 0x0A \<notin> set l \<Longrightarrow> split_on (CHR 0x0A) (file_text ls) = ls @ [[]]"
  by (induction ls) (simp_all add: file_text_def split_on_line)

lemma dumps_last:
  "dumps v \<noteq> [] \<and> last (dumps v) \<in> set [CHR ''l'', CHR ''e'', CHR 0x22, CHR '']'', CHR ''}'']"
proof (cases v)
  case (JBool b)
  then show ?thesis by (cases b) simp_all
qed (simp_all add: encode_string_def)

lemma dropWhile_hd: "s \<noteq> [] \<Longrightarrow> \<not> P (hd s) \<Longrightarrow> dropWhile P s = s"
  by (cases s) simp_all

lemma py_strip_dumps: "py_strip (dumps v) = dumps v"
proof -
  from dumps_last [of v] have ne: "dumps v \<noteq> []" and "\<not> is_space (last (dumps v))"
    by (auto simp: is_space_def)
  then have "\<not> is_space (hd (rev (dumps v)))" by (simp add: hd_rev)
  with ne have 2: "dropWhile is_space (rev (dumps v)) = rev (dumps v)"
    by (intro dropWhile_hd) simp_all
  have "starts_value (dumps v)" using starts_value_dumps [of v "[]"] by simp
  then have "\<not> is_space (hd (dumps v))"
    by (cases "dumps v") (auto simp: starts_value_def is_space_def)
  with ne have 1: "dropWhile is_space (dumps v) = dumps v" by (rule dropWhile_hd)
  show ?thesis unfolding py_strip_def 1 2 by simp
qed

lemma py_strip_Nil: "py_strip [] = []"
  by (simp add: py_strip_def)

lemma dumps_not_Nil: "dumps v \<noteq> []"
  using dumps_last [of v] by simp

lemma combine_lines_dumps:
  "combine_lines (map dumps vs @ [[]]) = ''['' @ join_comma (map dumps vs) @ '']''"
proof -
  have "filter (\<lambda>l. l \<noteq> []) (map py_strip (map dumps vs @ [[]])) = map dumps vs"
    by (induction vs) (simp_all add: py_strip_dumps dumps_not_Nil py_strip_Nil)
  then show ?thesis by (simp add: combine_lines_def)
qed

lemma read_json_lines_dumps:
  "read_json_lines (file_text (map dumps vs)) = Some vs"
proof -
  have "split_on (CHR 0x0A) (file_text (map dumps vs)) = map dumps vs @ [[]]"
    by (rule split_on_file_text) (auto simp: dumps_no_newline)
  then show ?thesis
    unfolding read_json_lines_def by (simp only: combine_lines_dumps json_loads_lines) simp
qed

subsection \<open>The round trip of a request record\<close>

lemma fold_update_other:
  "k \<notin> f ` set vs \<Longrightarrow> fold (\<lambda>v files. files(f v \<mapsto> h v)) vs m k = m k"
proof (induction vs arbitrary: m)
  case Nil
  show ?case by simp
next
  case (Cons v vs)
  from Cons.prems have k: "k \<notin> f ` set vs" and kv: "k \<noteq> f v" by auto
  have "fold (\<lambda>v files. files(f v \<mapsto> h v)) (v # vs) m k
      = fold (\<lambda>v files. files(f v \<mapsto> h v)) vs (m(f v \<mapsto> h v)) k"
    by (simp only: fold_simps comp_apply)
  also have "\<dots> = (m(f v \<mapsto> h v)) k" using k by (rule Cons.IH)
  also have "\<dots> = m k" using kv by simp
  finally show ?case .
qed

lemma fold_update_lookup:
  "distinct (map f vs) \<Longrightarrow> v \<in> set vs \<Longrightarrow>
     fold (\<lambda>v files. files(f v \<mapsto> h v)) vs m (f v) = Some (h v)"
proof (induction vs arbitrary: m)
  case Nil
  then show ?case by simp
next
  case (Cons w vs)
  have step: "fold (\<lambda>v files. files(f v \<mapsto> h v)) (w # vs) m (f v)
      = fold (\<lambda>v files. files(f v \<mapsto> h v)) vs (m(f w \<mapsto> h w)) (f v)"
    by (simp only: fold_simps comp_apply)
  show ?case
  proof (cases "v = w")
    case True
    from Cons.prems(1) have "f w \<notin> f ` set vs" by simp
    then have "fold (\<lambda>v files. files(f v \<mapsto> h v)) vs (m(f w \<mapsto> h w)) (f w)
        = (m(f w \<mapsto> h w)) (f w)"
      by (rule fold_update_other)
    also have "\<dots> = Some (h w)" by simp
    finally have r: "fold (\<lambda>v files. files(f v \<mapsto> h v)) vs (m(f w \<mapsto> h w)) (f w)
        = Some (h w)" .
    show ?thesis unfolding True by (rule trans [OF step [unfolded True] r])
  next
    case False
    with Cons.prems have "v \<in> set vs" and "distinct (map f vs)" by simp_all
    from Cons.IH [OF this(2) this(1)] show ?thesis unfolding step .
  qed
qed

lemma written_file_reads_back:
  assumes "v \<in> set models"
  shows "\<exists>ls. write_requests p g df models (request_path p v) = Some ls
           \<and> read_json_lines (file_text ls) = Some (map (make_task g v) df)"
proof -
  have "write_requests p g df models (request_path p v)
      = Some (map (\<lambda>row. dumps (make_task g v row)) df)"
    unfolding write_requests_def using distinct_request_paths assms
    by (rule fold_update_lookup)
  moreover have "read_json_lines (file_text (map (\<lambda>row. dumps (make_task g v row)) df))
      = Some (map (make_task g v) df)"
    using read_json_lines_dumps [of "map (make_task g v) df"] by (simp add: comp_def)
  ultimately show ?thesis by simp
qed

text \<open>
  C8. A request record written as one line by the generator and read back the way
  \<^verbatim>\<open>pd.read_json(..., lines=True)\<close> reads a file is the same record, for one record and
  for a whole file of them, and its custom_id, model and content are \<open>task-\<close> followed
  by the run_id, the model identifier and the generated prompt.
\<close>

theorem request_record_round_trip:
  "read_json_lines (file_text [dumps (make_task g version row)]) = Some [make_task g version row]
   \<and> read_json_lines (file_text (map (\<lambda>r. dumps (make_task g version r)) df))
       = Some (map (make_task g version) df)
   \<and> request_triple (make_task g version row)
       = Inr (JString (''task-'' @ str_nat (run_id row)), JString version,
              JString (g (name row) (row_occupation row) (row_living_status row)))"
proof (intro conjI)
  show "read_json_lines (file_text [dumps (make_task g version row)])
      = Some [make_task g version row]"
    using read_json_lines_dumps [of "[make_task g version row]"] by simp
  show "read_json_lines (file_text (map (\<lambda>r. dumps (make_task g version r)) df))
       = Some (map (make_task g version) df)"
    using read_json_lines_dumps [of "map (make_task g version) df"] by (simp add: comp_def)
  show "request_triple (make_task g version row)
       = Inr (JString (''task-'' @ str_nat (run_id row)), JString version,
              JString (g (name row) (row_occupation row) (row_living_status row)))"
    by (simp add: request_triple_def make_task_def and_then_def)
qed

theorem request_record_round_trip_witness:
  "read_json_lines
     (file_text [dumps (make_task example_prompt ''google/gemma-2-2b-it'' (example_task 0))])
     = Some [make_task example_prompt ''google/gemma-2-2b-it'' (example_task 0)]
   \<and> request_triple (make_task example_prompt ''google/gemma-2-2b-it'' (example_task 0))
     = Inr (JString ''task-0'', JString ''google/gemma-2-2b-it'',
            JString ''Tenant Adam Smith, doctor, just myself'')"
  using request_record_round_trip
    [of example_prompt "''google/gemma-2-2b-it''" "example_task 0" "[]"]
  by (simp add: example_task_def example_prompt_def str_nat_0)

end
